theory Spec2Isabelle
  imports Main "HOL-Library.Multiset"
begin

chapter \<open>The model of the data structures\<close>

text \<open>
  Each structure of the repository is translated function by function.  Values that are
  compared with \<open><\<close> are of a linearly ordered type, list indices and node addresses are
  natural numbers, mutation is explicit state passing, and an exception is a result value.
  The limits of the interpreter (recursion depth, memory) are not part of the model.
\<close>

section \<open>Binary search tree (data\_structures/07\_binary\_trees.py)\<close>

text \<open>
  A \<open>TreeNode\<close> object holds \<open>val\<close>, \<open>left\<close> and \<open>right\<close>; the empty tree is Python's
  \<open>None\<close>, here \<open>NoneT\<close>.  The constructor keeps the argument order of
  \<open>TreeNode(val, left, right)\<close>.  Nodes are owned by exactly one parent, so the in-place
  updates \<open>root.left = ...\<close> of the source are the rebuilt nodes of the model.
\<close>

datatype 'a tree = NoneT | TreeNode 'a "'a tree" "'a tree"

text \<open>\<open>inorder\<close> prints the values; the model returns the printed sequence.\<close>

fun inorder :: "'a tree \<Rightarrow> 'a list" where
  "inorder NoneT = []"
| "inorder (TreeNode v l r) = inorder l @ [v] @ inorder r"

fun search_bst :: "'a::linorder tree \<Rightarrow> 'a \<Rightarrow> bool" where
  "search_bst NoneT target = False"
| "search_bst (TreeNode v l r) target =
     (if v = target then True
      else if target < v then search_bst l target else search_bst r target)"

fun insert_bst :: "'a::linorder tree \<Rightarrow> 'a \<Rightarrow> 'a tree" where
  "insert_bst NoneT x = TreeNode x NoneT NoneT"
| "insert_bst (TreeNode v l r) x =
     (if x < v then TreeNode v (insert_bst l x) r
      else TreeNode v l (insert_bst r x))"

text \<open>
  The loop \<open>temp = root.right; while temp.left: temp = temp.left\<close> of \<open>delete_node\<close>,
  then \<open>temp.val\<close>: the arguments are \<open>temp.val\<close> and \<open>temp.left\<close> of the current node.
\<close>

fun leftmost_val :: "'a \<Rightarrow> 'a tree \<Rightarrow> 'a" where
  "leftmost_val v NoneT = v"
| "leftmost_val v (TreeNode v' l' r') = leftmost_val v' l'"

fun delete_node :: "'a::linorder tree \<Rightarrow> 'a \<Rightarrow> 'a tree" where
  "delete_node NoneT key = NoneT"
| "delete_node (TreeNode v l r) key =
     (if key < v then TreeNode v (delete_node l key) r
      else if key > v then TreeNode v l (delete_node r key)
      else (case l of
              NoneT \<Rightarrow> r
            | TreeNode lv ll lr \<Rightarrow>
                (case r of
                   NoneT \<Rightarrow> l
                 | TreeNode rv rl rr \<Rightarrow>
                     TreeNode (leftmost_val rv rl) l (delete_node r (leftmost_val rv rl)))))"

text \<open>The tree obtained by inserting a sequence of values one after the other,
  starting from the empty tree, each call rebinding the root.\<close>

definition build_bst :: "'a::linorder list \<Rightarrow> 'a tree" where
  "build_bst xs = foldl insert_bst NoneT xs"

text \<open>The ordering invariant of the data model: everything in the left subtree is
  strictly smaller than the node's value, everything in the right subtree is greater or
  equal.\<close>

fun bst :: "'a::linorder tree \<Rightarrow> bool" where
  "bst NoneT = True"
| "bst (TreeNode v l r) =
     (bst l \<and> bst r \<and> (\<forall>x \<in> set (inorder l). x < v) \<and> (\<forall>x \<in> set (inorder r). v \<le> x))"

text \<open>Positions in a tree: a path of directions from the root.\<close>

datatype dir = GoLeft | GoRight

fun subtree :: "'a tree \<Rightarrow> dir list \<Rightarrow> 'a tree" where
  "subtree t [] = t"
| "subtree NoneT (d # ds) = NoneT"
| "subtree (TreeNode v l r) (GoLeft # ds) = subtree l ds"
| "subtree (TreeNode v l r) (GoRight # ds) = subtree r ds"


section \<open>Binary min-heap (data\_structures/08\_heaps.py)\<close>

text \<open>
  Exceptions of the source are values: a method that can raise returns \<open>error + result\<close>,
  with \<open>Inl\<close> for the exception.  The only exception the modelled code raises is Python's
  \<open>IndexError\<close> (indexing or popping an empty list).
\<close>

datatype error = IndexError

text \<open>
  \<open>MinHeap.heap\<close> is a Python list; the model passes it in and returns the updated list.
  The tuple assignment \<open>heap[i], heap[j] = heap[j], heap[i]\<close> reads both entries first and
  then writes \<open>heap[i]\<close> and \<open>heap[j]\<close>.
\<close>

definition swap :: "'a list \<Rightarrow> nat \<Rightarrow> nat \<Rightarrow> 'a list" where
  "swap h i j = h[i := h ! j, j := h ! i]"

text \<open>
  \<^verbatim>\<open>def _bubble_up(self, i):
    while i > 0:
        parent = (i - 1) // 2
        if self.heap[i] < self.heap[parent]:
            self.heap[i], self.heap[parent] = self.heap[parent], self.heap[i]
            i = parent
        else:
            break\<close>
  The only caller passes \<open>i = len(heap) - 1\<close> on a non-empty list, so every index read is in
  range (lemma \<open>length_bubble_up\<close> and the invariant below).
\<close>

function bubble_up :: "'a::linorder list \<Rightarrow> nat \<Rightarrow> 'a list" where
  "bubble_up h i =
     (if i > 0 then
        (let parent = (i - 1) div 2 in
         if h ! i < h ! parent then bubble_up (swap h i parent) parent else h)
      else h)"
  by pat_completeness auto
termination
  by (relation "measure snd") auto

text \<open>
  The body of the loop of \<open>_bubble_down\<close> up to the choice of \<open>smallest\<close>, entered only when
  \<open>left = 2 * i + 1 < n\<close>:
  \<^verbatim>\<open>smallest = i
if self.heap[left] < self.heap[smallest]: smallest = left
if right < n and self.heap[right] < self.heap[smallest]: smallest = right\<close>
\<close>

definition smallest_of :: "'a::linorder list \<Rightarrow> nat \<Rightarrow> nat" where
  "smallest_of h i =
     (let n = length h; left = 2 * i + 1; right = 2 * i + 2;
          smallest = (if h ! left < h ! i then left else i)
      in if right < n \<and> h ! right < h ! smallest then right else smallest)"

text \<open>
  \<^verbatim>\<open>def _bubble_down(self, i):
    n = len(self.heap)
    while 2 * i + 1 < n:
        ...
        if smallest == i: break
        self.heap[i], self.heap[smallest] = self.heap[smallest], self.heap[i]
        i = smallest\<close>
\<close>

function bubble_down :: "'a::linorder list \<Rightarrow> nat \<Rightarrow> 'a list" where
  "bubble_down h i =
     (if 2 * i + 1 < length h then
        (let smallest = smallest_of h i in
         if smallest = i then h else bubble_down (swap h i smallest) smallest)
      else h)"
  by pat_completeness auto
termination
proof (relation "measure (\<lambda>(h, i). length h - i)")
  show "wf (measure (\<lambda>(h :: 'a list, i). length h - i))" by simp
next
  fix h :: "'a list" and i s
  assume "2 * i + 1 < length h" "s = smallest_of h i" "s \<noteq> i"
  then show "((swap h i s, s), (h, i)) \<in> measure (\<lambda>(h, i). length h - i)"
    by (auto simp: smallest_of_def Let_def swap_def split: if_splits)
qed

declare bubble_up.simps [simp del] bubble_down.simps [simp del]

text \<open>
  \<^verbatim>\<open>def push(self, val):
    self.heap.append(val)
    self._bubble_up(len(self.heap) - 1)\<close>
\<close>

definition MinHeap_push :: "'a::linorder list \<Rightarrow> 'a \<Rightarrow> 'a list" where
  "MinHeap_push h v = bubble_up (h @ [v]) (length (h @ [v]) - 1)"

text \<open>
  \<^verbatim>\<open>def pop(self):
    if len(self.heap) == 1:
        return self.heap.pop()
    out = self.heap[0]
    self.heap[0] = self.heap.pop()
    self._bubble_down(0)
    return out\<close>
  On the empty list the test \<open>len(self.heap) == 1\<close> fails and \<open>self.heap[0]\<close> raises
  \<open>IndexError\<close>.  Otherwise the right-hand side \<open>self.heap.pop()\<close> removes the last entry
  before it is stored at index 0.  The result is the returned value and the new list.
\<close>

definition MinHeap_pop :: "'a::linorder list \<Rightarrow> error + ('a \<times> 'a list)" where
  "MinHeap_pop h =
     (if length h = 1 then Inr (last h, butlast h)
      else if h = [] then Inl IndexError
      else Inr (h ! 0, bubble_down ((butlast h)[0 := last h]) 0))"

text \<open>\<open>n\<close> successive calls of \<open>pop\<close>: the values returned, in order, and the heap left;
  the first exception ends the sequence.\<close>

fun pop_n :: "nat \<Rightarrow> 'a::linorder list \<Rightarrow> error + ('a list \<times> 'a list)" where
  "pop_n 0 h = Inr ([], h)"
| "pop_n (Suc n) h =
     (case MinHeap_pop h of
        Inl e \<Rightarrow> Inl e
      | Inr (x, h') \<Rightarrow>
          (case pop_n n h' of
             Inl e \<Rightarrow> Inl e
           | Inr (xs, h'') \<Rightarrow> Inr (x # xs, h'')))"

text \<open>Any sequence of \<open>push\<close> and \<open>pop\<close> calls on one heap; the values popped are dropped,
  the first exception ends the sequence.\<close>

datatype 'a heap_op = Push 'a | Pop

fun MinHeap_run :: "'a::linorder list \<Rightarrow> 'a heap_op list \<Rightarrow> error + 'a list" where
  "MinHeap_run h [] = Inr h"
| "MinHeap_run h (Push v # ops) = MinHeap_run (MinHeap_push h v) ops"
| "MinHeap_run h (Pop # ops) =
     (case MinHeap_pop h of
        Inl e \<Rightarrow> Inl e
      | Inr (x, h') \<Rightarrow> MinHeap_run h' ops)"

text \<open>
  Modelled from the spec: \<open>heapq.heapify\<close> and \<open>heapq.heappop\<close>, which \<open>heap_sort\<close> calls,
  belong to the Python standard library and are not in the repository.  Section 4.3 of the
  specification describes them: \<open>heapify\<close> "builds heap invariant from an arbitrary initial
  sequence in O(n) using bottom-up sift-down, not repeated pushes", that is, sift-down
  (the \<open>_bubble_down\<close> of the repository) at the indices \<open>n div 2 - 1, ..., 0\<close>; and \<open>pop\<close>
  "must fail if empty; otherwise save root, move last element to root position, shrink, then
  sift-down", which is what \<open>MinHeap.pop\<close> does.
\<close>

definition heapify :: "'a::linorder list \<Rightarrow> 'a list" where
  "heapify h = foldl bubble_down h (rev [0..<length h div 2])"

definition heappop :: "'a::linorder list \<Rightarrow> error + ('a \<times> 'a list)" where
  "heappop h = MinHeap_pop h"

fun heappop_n :: "nat \<Rightarrow> 'a::linorder list \<Rightarrow> error + ('a list \<times> 'a list)" where
  "heappop_n 0 h = Inr ([], h)"
| "heappop_n (Suc n) h =
     (case heappop h of
        Inl e \<Rightarrow> Inl e
      | Inr (x, h') \<Rightarrow>
          (case heappop_n n h' of
             Inl e \<Rightarrow> Inl e
           | Inr (xs, h'') \<Rightarrow> Inr (x # xs, h'')))"

text \<open>
  \<^verbatim>\<open>def heap_sort(arr):
    heapq.heapify(arr)
    return [heapq.heappop(arr) for _ in range(len(arr))]\<close>
  \<open>range(len(arr))\<close> is evaluated once, after \<open>heapify\<close>, so there are \<open>len(arr)\<close> pops.
\<close>

definition heap_sort :: "'a::linorder list \<Rightarrow> error + 'a list" where
  "heap_sort arr =
     (case heappop_n (length (heapify arr)) (heapify arr) of
        Inl e \<Rightarrow> Inl e
      | Inr (out, rest) \<Rightarrow> Inr out)"

text \<open>The heap invariant of the data model: every entry is at least its parent, the parent
  of index \<open>c > 0\<close> being \<open>(c - 1) div 2\<close>.  \<open>heap_from k\<close> asks this of the entries whose
  parent index is at least \<open>k\<close> (the part of the array that bottom-up \<open>heapify\<close> has already
  treated).\<close>

definition is_heap :: "'a::linorder list \<Rightarrow> bool" where
  "is_heap h \<longleftrightarrow> (\<forall>c. 0 < c \<and> c < length h \<longrightarrow> h ! ((c - 1) div 2) \<le> h ! c)"

definition heap_from :: "nat \<Rightarrow> 'a::linorder list \<Rightarrow> bool" where
  "heap_from k h \<longleftrightarrow>
     (\<forall>c. 0 < c \<and> c < length h \<and> k \<le> (c - 1) div 2 \<longrightarrow> h ! ((c - 1) div 2) \<le> h ! c)"


section \<open>Stack and queue (data\_structures/04\_stacks.py, 05\_queues.py)\<close>

text \<open>
  The containers hold arbitrary Python objects; \<open>None\<close> is one of them and can be pushed
  like any other value.  \<open>'a pyobj\<close> is a Python object: \<open>None\<close> or a value of type \<open>'a\<close>.
\<close>

datatype 'a pyobj = PyNone | PyVal 'a

text \<open>
  \<^verbatim>\<open>class Stack:
    def __init__(self): self.data = []
    def push(self, val): self.data.append(val)
    def pop(self): return self.data.pop()
    def peek(self): return self.data[-1] if self.data else None
    def empty(self): return not self.data\<close>
  \<open>list.pop()\<close> raises \<open>IndexError\<close> on the empty list.
\<close>

definition Stack_push :: "'a pyobj list \<Rightarrow> 'a pyobj \<Rightarrow> 'a pyobj list" where
  "Stack_push data v = data @ [v]"

definition Stack_pop :: "'a pyobj list \<Rightarrow> error + ('a pyobj \<times> 'a pyobj list)" where
  "Stack_pop data = (if data = [] then Inl IndexError else Inr (last data, butlast data))"

definition Stack_peek :: "'a pyobj list \<Rightarrow> error + 'a pyobj" where
  "Stack_peek data = Inr (if data \<noteq> [] then last data else PyNone)"

definition Stack_empty :: "'a pyobj list \<Rightarrow> bool" where
  "Stack_empty data = (data = [])"

text \<open>
  \<^verbatim>\<open>class Queue:
    def __init__(self): self.data = deque()
    def enqueue(self, val): self.data.append(val)
    def dequeue(self): return self.data.popleft()
    def front(self): return self.data[0] if self.data else None\<close>
  \<open>deque.popleft()\<close> raises \<open>IndexError\<close> on the empty deque.
\<close>

definition Queue_enqueue :: "'a pyobj list \<Rightarrow> 'a pyobj \<Rightarrow> 'a pyobj list" where
  "Queue_enqueue data v = data @ [v]"

definition Queue_dequeue :: "'a pyobj list \<Rightarrow> error + ('a pyobj \<times> 'a pyobj list)" where
  "Queue_dequeue data = (case data of [] \<Rightarrow> Inl IndexError | x # rest \<Rightarrow> Inr (x, rest))"

definition Queue_front :: "'a pyobj list \<Rightarrow> error + 'a pyobj" where
  "Queue_front data = Inr (case data of [] \<Rightarrow> PyNone | x # rest \<Rightarrow> x)"


section \<open>Singly linked list (data\_structures/06\_linked\_lists.py)\<close>

text \<open>
  Nodes are mutable objects that are shared by reference (\<open>head\<close>, \<open>tail\<close>, \<open>prev\<close>, \<open>cur\<close>
  may denote the same node), so the model has an explicit store: a node lives at an
  address, \<open>cell\<close> maps every address to the node stored there, and \<open>fresh\<close> is the next
  unused address.  A reference is \<open>Some address\<close>, Python's \<open>None\<close> is \<open>None\<close>.  Two
  references are the same object exactly when the addresses are equal (\<open>ListNode\<close> defines
  no \<open>__eq__\<close>, so \<open>==\<close> is identity), and a node object is always true in a condition.
\<close>

record 'a ListNode =
  val :: 'a
  "next" :: "nat option"

record 'a store =
  cell :: "nat \<Rightarrow> 'a ListNode"
  fresh :: nat

text \<open>\<open>ListNode(v, nx)\<close>: a new object, at an address not used before.\<close>

definition new_node :: "'a store \<Rightarrow> 'a \<Rightarrow> nat option \<Rightarrow> nat \<times> 'a store" where
  "new_node st v nx =
     (fresh st, st\<lparr>cell := (cell st)(fresh st := \<lparr>val = v, next = nx\<rparr>), fresh := Suc (fresh st)\<rparr>)"

text \<open>The assignment \<open>a.next = nx\<close>.\<close>

definition set_next :: "'a store \<Rightarrow> nat \<Rightarrow> nat option \<Rightarrow> 'a store" where
  "set_next st a nx = st\<lparr>cell := (cell st)(a := (cell st a)\<lparr>next := nx\<rparr>)\<rparr>"

text \<open>The \<open>LinkedList\<close> object: its two references.  Methods take the store and the object and
  return both, updated.\<close>

record LinkedList =
  head :: "nat option"
  tail :: "nat option"

definition LinkedList_init :: LinkedList where
  "LinkedList_init = \<lparr>head = None, tail = None\<rparr>"

text \<open>
  \<^verbatim>\<open>def insert_front(self, val):
    node = ListNode(val)
    if not self.head:
        self.head = self.tail = node
    else:
        node.next = self.head
        self.head = node\<close>
\<close>

definition insert_front :: "'a store \<times> LinkedList \<Rightarrow> 'a \<Rightarrow> 'a store \<times> LinkedList" where
  "insert_front s v =
     (case s of (st, ll) \<Rightarrow>
        (case new_node st v None of (node, st1) \<Rightarrow>
           (case head ll of
              None \<Rightarrow> (st1, ll\<lparr>head := Some node, tail := Some node\<rparr>)
            | Some h \<Rightarrow> (set_next st1 node (head ll), ll\<lparr>head := Some node\<rparr>))))"

text \<open>
  \<^verbatim>\<open>def insert_end(self, val):
    node = ListNode(val)
    if not self.tail:
        self.head = self.tail = node
    else:
        self.tail.next = node
        self.tail = node\<close>
\<close>

definition insert_end :: "'a store \<times> LinkedList \<Rightarrow> 'a \<Rightarrow> 'a store \<times> LinkedList" where
  "insert_end s v =
     (case s of (st, ll) \<Rightarrow>
        (case new_node st v None of (node, st1) \<Rightarrow>
           (case tail ll of
              None \<Rightarrow> (st1, ll\<lparr>head := Some node, tail := Some node\<rparr>)
            | Some t \<Rightarrow> (set_next st1 t (Some node), ll\<lparr>tail := Some node\<rparr>))))"

text \<open>
  \<^verbatim>\<open>def delete_val(self, val):
    dummy = ListNode(0, self.head)
    prev, cur = dummy, self.head
    while cur:
        if cur.val == val:
            prev.next = cur.next
            if cur == self.tail:
                self.tail = prev
            break
        prev, cur = cur, cur.next
    self.head = dummy.next\<close>
  The loop follows \<open>next\<close> references and need not end on a cyclic chain: it is a partial
  function, \<open>None\<close> meaning that it does not return.
\<close>

partial_function (option) delete_val_loop ::
  "'a store \<Rightarrow> LinkedList \<Rightarrow> 'a \<Rightarrow> nat \<Rightarrow> nat option \<Rightarrow> ('a store \<times> LinkedList) option" where
  "delete_val_loop st ll v prev cur =
     (case cur of
        None \<Rightarrow> Some (st, ll)
      | Some c \<Rightarrow>
          if val (cell st c) = v
          then Some (set_next st prev (next (cell st c)),
                     if cur = tail ll then ll\<lparr>tail := Some prev\<rparr> else ll)
          else delete_val_loop st ll v c (next (cell st c)))"

declare delete_val_loop.simps [code]

definition delete_val ::
  "'a::zero store \<times> LinkedList \<Rightarrow> 'a \<Rightarrow> ('a store \<times> LinkedList) option" where
  "delete_val s v =
     (case s of (st, ll) \<Rightarrow>
        (case new_node st 0 (head ll) of (dummy, st1) \<Rightarrow>
           (case delete_val_loop st1 ll v dummy (head ll) of
              None \<Rightarrow> None
            | Some (st2, ll2) \<Rightarrow> Some (st2, ll2\<lparr>head := next (cell st2 dummy)\<rparr>))))"

text \<open>
  \<^verbatim>\<open>def find(self, val):
    cur = self.head
    while cur:
        if cur.val == val: return True
        cur = cur.next
    return False\<close>
\<close>

partial_function (option) find_loop :: "'a store \<Rightarrow> 'a \<Rightarrow> nat option \<Rightarrow> bool option" where
  "find_loop st v cur =
     (case cur of
        None \<Rightarrow> Some False
      | Some c \<Rightarrow> if val (cell st c) = v then Some True else find_loop st v (next (cell st c)))"

declare find_loop.simps [code]

definition LinkedList_find :: "'a store \<times> LinkedList \<Rightarrow> 'a \<Rightarrow> bool option" where
  "LinkedList_find s v = (case s of (st, ll) \<Rightarrow> find_loop st v (head ll))"

text \<open>
  \<^verbatim>\<open>def reverse_list(head):
    prev = None
    while head:
        nxt = head.next
        head.next = prev
        prev = head
        head = nxt
    return prev\<close>
  The loop state is the store, \<open>prev\<close> and \<open>head\<close> (written \<open>h\<close>).
\<close>

partial_function (option) reverse_loop ::
  "'a store \<Rightarrow> nat option \<Rightarrow> nat option \<Rightarrow> ('a store \<times> nat option) option" where
  "reverse_loop st prev h =
     (case h of
        None \<Rightarrow> Some (st, prev)
      | Some a \<Rightarrow> reverse_loop (set_next st a prev) (Some a) (next (cell st a)))"

declare reverse_loop.simps [code]

definition reverse_list :: "'a store \<Rightarrow> nat option \<Rightarrow> ('a store \<times> nat option) option" where
  "reverse_list st h = reverse_loop st None h"

text \<open>
  \<^verbatim>\<open>def to_list(head):
    out = []
    while head:
        out.append(head.val)
        head = head.next
    return out\<close>
\<close>

partial_function (option) to_list_loop ::
  "'a store \<Rightarrow> 'a list \<Rightarrow> nat option \<Rightarrow> 'a list option" where
  "to_list_loop st out h =
     (case h of
        None \<Rightarrow> Some out
      | Some a \<Rightarrow> to_list_loop st (out @ [val (cell st a)]) (next (cell st a)))"

declare to_list_loop.simps [code]

definition to_list :: "'a store \<Rightarrow> nat option \<Rightarrow> 'a list option" where
  "to_list st h = to_list_loop st [] h"

text \<open>A finite singly linked list in the store: following \<open>next\<close> from the reference \<open>p\<close>
  visits the nodes at the addresses \<open>as\<close>, in this order, and then reaches \<open>None\<close>.\<close>

fun list_at :: "'a store \<Rightarrow> nat option \<Rightarrow> nat list \<Rightarrow> bool" where
  "list_at st p [] = (p = None)"
| "list_at st p (a # as) = (p = Some a \<and> list_at st (next (cell st a)) as)"

text \<open>A well-formed \<open>LinkedList\<close> object holding the nodes \<open>as\<close>: \<open>head\<close> starts the chain
  \<open>as\<close>, \<open>tail\<close> refers to its last node (both are \<open>None\<close> for the empty list), and all
  nodes are allocated.\<close>

definition ll_wf :: "'a store \<Rightarrow> LinkedList \<Rightarrow> nat list \<Rightarrow> bool" where
  "ll_wf st ll as \<longleftrightarrow>
     list_at st (head ll) as
     \<and> tail ll = (if as = [] then None else Some (last as))
     \<and> (\<forall>a \<in> set as. a < fresh st)"

text \<open>Two concrete stores for the examples: an empty one, and one that holds the list
  \<open>1 -> 2 -> 3\<close> at the addresses 0, 1, 2.\<close>

definition store0 :: "int store" where
  "store0 = \<lparr>cell = (\<lambda>_. \<lparr>val = 0, next = None\<rparr>), fresh = 0\<rparr>"

definition store123 :: "int store" where
  "store123 =
     \<lparr>cell = (\<lambda>_. \<lparr>val = 0, next = None\<rparr>)
        (0 := \<lparr>val = 1, next = Some 1\<rparr>,
         1 := \<lparr>val = 2, next = Some 2\<rparr>,
         2 := \<lparr>val = 3, next = None\<rparr>),
      fresh = 3\<rparr>"


section \<open>Union-find (algorithms/09\_misc\_algos.py)\<close>

text \<open>
  \<^verbatim>\<open>class UnionFind:
    def __init__(self, n):
        self.parent = list(range(n))
        self.rank = [0] * n\<close>
  Elements are the indices \<open>0, ..., n - 1\<close>; an index that is not below the length of the
  list raises \<open>IndexError\<close>.
\<close>

record UnionFind =
  parent :: "nat list"
  rank :: "nat list"

definition UnionFind_init :: "nat \<Rightarrow> UnionFind" where
  "UnionFind_init n = \<lparr>parent = [0..<n], rank = replicate n 0\<rparr>"

text \<open>
  \<^verbatim>\<open>def find(self, x):
    if self.parent[x] != x:
        self.parent[x] = self.find(self.parent[x])  # compress path
    return self.parent[x]\<close>
  The recursion follows parent links and does not return on a cyclic \<open>parent\<close> list, so
  \<open>find\<close> is a partial function: \<open>None\<close> means that the call does not return, \<open>Some (Inl e)\<close>
  that it raises \<open>e\<close>, \<open>Some (Inr (r, uf'))\<close> that it returns \<open>r\<close> and leaves the structure
  \<open>uf'\<close>.  The right-hand side \<open>self.find(...)\<close> is evaluated, and updates the structure,
  before \<open>self.parent[x]\<close> is assigned.
\<close>

partial_function (option) UnionFind_find ::
  "UnionFind \<Rightarrow> nat \<Rightarrow> (error + nat \<times> UnionFind) option" where
  "UnionFind_find uf x =
     (if x < length (parent uf) then
        (if parent uf ! x \<noteq> x then
           Option.bind (UnionFind_find uf (parent uf ! x))
             (\<lambda>res. case res of
                 Inl e \<Rightarrow> Some (Inl e)
               | Inr (r, uf1) \<Rightarrow>
                   (if x < length (parent uf1)
                    then Some (Inr ((parent uf1)[x := r] ! x, uf1\<lparr>parent := (parent uf1)[x := r]\<rparr>))
                    else Some (Inl IndexError)))
         else Some (Inr (parent uf ! x, uf)))
      else Some (Inl IndexError))"

declare UnionFind_find.simps [code]

text \<open>
  \<^verbatim>\<open>def union(self, x, y):
    px, py = self.find(x), self.find(y)
    if px == py: return False
    if self.rank[px] < self.rank[py]:
        self.parent[px] = py
    elif self.rank[px] > self.rank[py]:
        self.parent[py] = px
    else:
        self.parent[py] = px
        self.rank[px] += 1
    return True\<close>
\<close>

definition UnionFind_union ::
  "UnionFind \<Rightarrow> nat \<Rightarrow> nat \<Rightarrow> (error + bool \<times> UnionFind) option" where
  "UnionFind_union uf x y =
     Option.bind (UnionFind_find uf x)
       (\<lambda>res1. case res1 of
           Inl e \<Rightarrow> Some (Inl e)
         | Inr (px, uf1) \<Rightarrow>
             Option.bind (UnionFind_find uf1 y)
               (\<lambda>res2. case res2 of
                   Inl e \<Rightarrow> Some (Inl e)
                 | Inr (py, uf2) \<Rightarrow>
                     (if px = py then Some (Inr (False, uf2))
                      else if \<not> (px < length (rank uf2) \<and> py < length (rank uf2)
                                 \<and> px < length (parent uf2) \<and> py < length (parent uf2))
                      then Some (Inl IndexError)
                      else if rank uf2 ! px < rank uf2 ! py
                      then Some (Inr (True, uf2\<lparr>parent := (parent uf2)[px := py]\<rparr>))
                      else if rank uf2 ! px > rank uf2 ! py
                      then Some (Inr (True, uf2\<lparr>parent := (parent uf2)[py := px]\<rparr>))
                      else Some (Inr (True, uf2\<lparr>parent := (parent uf2)[py := px],
                                                 rank := (rank uf2)[px := rank uf2 ! px + 1]\<rparr>)))))"

text \<open>Sequences of calls on one structure: each call is \<open>find(x)\<close> or \<open>union(x, y)\<close>, its
  result is dropped and the structure it leaves is passed on; an exception ends the
  sequence.\<close>

datatype uf_op = Find nat | Union nat nat

fun apply_op :: "UnionFind \<Rightarrow> uf_op \<Rightarrow> (error + UnionFind) option" where
  "apply_op uf (Find x) = map_option (map_sum id snd) (UnionFind_find uf x)"
| "apply_op uf (Union x y) = map_option (map_sum id snd) (UnionFind_union uf x y)"

fun run :: "UnionFind \<Rightarrow> uf_op list \<Rightarrow> (error + UnionFind) option" where
  "run uf [] = Some (Inr uf)"
| "run uf (op # ops) =
     (case apply_op uf op of
        None \<Rightarrow> None
      | Some (Inl e) \<Rightarrow> Some (Inl e)
      | Some (Inr uf') \<Rightarrow> run uf' ops)"

text \<open>The calls whose arguments are elements of \<open>{0, ..., n - 1}\<close>, and the pairs that a
  sequence of calls has unioned.\<close>

fun op_in_range :: "nat \<Rightarrow> uf_op \<Rightarrow> bool" where
  "op_in_range n (Find x) = (x < n)"
| "op_in_range n (Union x y) = (x < n \<and> y < n)"

definition ops_in_range :: "nat \<Rightarrow> uf_op list \<Rightarrow> bool" where
  "ops_in_range n ops = list_all (op_in_range n) ops"

fun pairs_of :: "uf_op list \<Rightarrow> (nat \<times> nat) list" where
  "pairs_of [] = []"
| "pairs_of (Find x # ops) = pairs_of ops"
| "pairs_of (Union x y # ops) = (x, y) # pairs_of ops"

text \<open>\<open>a\<close> and \<open>b\<close> are connected by the pairs \<open>ps\<close>: related by the reflexive, symmetric
  and transitive closure of the pairs.\<close>

definition connected :: "(nat \<times> nat) list \<Rightarrow> nat \<Rightarrow> nat \<Rightarrow> bool" where
  "connected ps a b \<longleftrightarrow> (a, b) \<in> (set ps \<union> (set ps)\<inverse>)\<^sup>*"

text \<open>Following parent links: \<open>walk p x ys r\<close> says that the links of the list \<open>p\<close> lead from
  \<open>x\<close> through the nodes \<open>ys\<close> (all of them not roots, \<open>x\<close> first) to the root \<open>r\<close>, an index
  whose parent is itself.  \<open>root_of p x r\<close>: the walk from \<open>x\<close> ends at \<open>r\<close>.\<close>

inductive walk :: "nat list \<Rightarrow> nat \<Rightarrow> nat list \<Rightarrow> nat \<Rightarrow> bool" for p :: "nat list" where
  walk_root: "x < length p \<Longrightarrow> p ! x = x \<Longrightarrow> walk p x [] x"
| walk_step: "x < length p \<Longrightarrow> p ! x \<noteq> x \<Longrightarrow> walk p (p ! x) ys r \<Longrightarrow> walk p x (x # ys) r"

code_pred walk .

definition root_of :: "nat list \<Rightarrow> nat \<Rightarrow> nat \<Rightarrow> bool" where
  "root_of p x r \<longleftrightarrow> (\<exists>ys. walk p x ys r)"

definition same_set :: "nat list \<Rightarrow> nat \<Rightarrow> nat \<Rightarrow> bool" where
  "same_set p a b \<longleftrightarrow> (\<exists>r. root_of p a r \<and> root_of p b r)"

text \<open>The invariant of the forest: both lists have length \<open>n\<close>, parents are elements, and
  the rank strictly increases along every parent link.\<close>

definition uf_inv :: "nat \<Rightarrow> UnionFind \<Rightarrow> bool" where
  "uf_inv n uf \<longleftrightarrow>
     length (parent uf) = n \<and> length (rank uf) = n
     \<and> (\<forall>i<n. parent uf ! i < n)
     \<and> (\<forall>i<n. parent uf ! i \<noteq> i \<longrightarrow> rank uf ! i < rank uf ! (parent uf ! i))"

definition represents :: "nat \<Rightarrow> UnionFind \<Rightarrow> (nat \<times> nat) list \<Rightarrow> bool" where
  "represents n uf ps \<longleftrightarrow>
     uf_inv n uf \<and> (\<forall>a < n. \<forall>b < n. same_set (parent uf) a b \<longleftrightarrow> connected ps a b)"


chapter \<open>Proofs\<close>

section \<open>Binary search tree: insertion, search, deletion\<close>

subsection \<open>Insertion\<close>

lemma mset_inorder_insert_bst:
  "mset (inorder (insert_bst t x)) = add_mset x (mset (inorder t))"
  by (induction t) auto

lemma set_inorder_insert_bst:
  "set (inorder (insert_bst t x)) = insert x (set (inorder t))"
  by (induction t) auto

lemma bst_insert_bst: "bst t \<Longrightarrow> bst (insert_bst t x)"
  by (induction t) (auto simp: set_inorder_insert_bst)

lemma bst_foldl_insert: "bst t \<Longrightarrow> bst (foldl insert_bst t xs)"
  by (induction xs arbitrary: t) (simp_all add: bst_insert_bst)

lemma mset_foldl_insert:
  "mset (inorder (foldl insert_bst t xs)) = mset (inorder t) + mset xs"
  by (induction xs arbitrary: t) (simp_all add: mset_inorder_insert_bst)

lemma bst_sorted_inorder: "bst t \<Longrightarrow> sorted (inorder t)"
  by (induction t) (fastforce simp: sorted_append)+

lemma bst_build_bst: "bst (build_bst xs)"
  by (simp add: build_bst_def bst_foldl_insert)

lemma mset_build_bst: "mset (inorder (build_bst xs)) = mset xs"
  by (simp add: build_bst_def mset_foldl_insert)

lemma set_build_bst: "set (inorder (build_bst xs)) = set xs"
  using mset_build_bst [of xs] by (metis set_mset_mset)


subsection \<open>Search\<close>

lemma search_bst_iff: "bst t \<Longrightarrow> search_bst t x \<longleftrightarrow> x \<in> set (inorder t)"
  by (induction t) auto


subsection \<open>Deletion\<close>

lemma leftmost_val_hd_append: "hd (inorder l @ v # rest) = leftmost_val v l"
  by (induction v l arbitrary: rest rule: leftmost_val.induct) simp_all

lemma leftmost_val_hd: "leftmost_val v l = hd (inorder (TreeNode v l r))"
  by (simp add: leftmost_val_hd_append)

lemma delete_node_absent: "key \<notin> set (inorder t) \<Longrightarrow> delete_node t key = t"
  by (induction t) (auto split: tree.splits)

lemma inorder_delete_node:
  "bst t \<Longrightarrow> inorder (delete_node t key) = remove1 key (inorder t)"
proof (induction t arbitrary: key)
  case NoneT
  show ?case by simp
next
  case (TreeNode v l r)
  from TreeNode.prems have bl: "bst l" and br: "bst r"
    and lt: "\<forall>x \<in> set (inorder l). x < v" and ge: "\<forall>x \<in> set (inorder r). v \<le> x"
    by simp_all
  consider (less) "key < v" | (greater) "v < key" | (eq) "key = v"
    using less_linear by blast
  then show ?case
  proof cases
    case less
    then have "key \<notin> set (inorder r)" using ge by auto
    with less TreeNode.IH(1) [OF bl] show ?thesis
      by (auto simp: remove1_append remove1_idem)
  next
    case greater
    then have "key \<notin> set (inorder l)" using lt by auto
    with greater TreeNode.IH(2) [OF br] show ?thesis
      by (auto simp: remove1_append remove1_idem)
  next
    case eq
    have notl: "v \<notin> set (inorder l)" using lt by auto
    show ?thesis
    proof (cases l)
      case NoneT
      with eq show ?thesis by simp
    next
      case l: (TreeNode lv ll lr)
      show ?thesis
      proof (cases r)
        case NoneT
        with eq l notl show ?thesis
          by (simp add: remove1_append del: inorder.simps)
            (simp add: remove1_append)
      next
        case r: (TreeNode rv rl rr)
        let ?m = "leftmost_val rv rl"
        have hd: "?m = hd (inorder r)"
          unfolding r by (rule leftmost_val_hd)
        have ne: "inorder r \<noteq> []" by (simp add: r)
        have "inorder (delete_node r ?m) = remove1 ?m (inorder r)"
          by (rule TreeNode.IH(2) [OF br])
        also have "\<dots> = tl (inorder r)"
          using ne hd by (cases "inorder r") simp_all
        finally have del: "inorder (delete_node r ?m) = tl (inorder r)" .
        have "inorder (delete_node (TreeNode v l r) key)
                = inorder l @ ?m # inorder (delete_node r ?m)"
          using eq l r by simp
        also have "\<dots> = inorder l @ inorder r"
          using del hd ne by simp
        also have "\<dots> = remove1 key (inorder (TreeNode v l r))"
          using eq notl by (simp add: remove1_append)
        finally show ?thesis .
      qed
    qed
  qed
qed

lemma bst_delete_node: "bst t \<Longrightarrow> bst (delete_node t key)"
proof (induction t arbitrary: key)
  case NoneT
  show ?case by simp
next
  case (TreeNode v l r)
  from TreeNode.prems have bl: "bst l" and br: "bst r"
    and lt: "\<forall>x \<in> set (inorder l). x < v" and ge: "\<forall>x \<in> set (inorder r). v \<le> x"
    by simp_all
  have sub: "set (inorder (delete_node t' k)) \<subseteq> set (inorder t')" if "bst t'" for t' :: "'a tree" and k
    using inorder_delete_node [OF that, of k] set_remove1_subset [of k "inorder t'"] by simp
  consider (less) "key < v" | (greater) "v < key" | (eq) "key = v"
    using less_linear by blast
  then show ?case
  proof cases
    case less
    have "\<forall>x \<in> set (inorder (delete_node l key)). x < v"
      using sub [OF bl, of key] lt by blast
    with less TreeNode.IH(1) [OF bl] br ge show ?thesis by simp
  next
    case greater
    have "\<forall>x \<in> set (inorder (delete_node r key)). v \<le> x"
      using sub [OF br, of key] ge by blast
    with greater TreeNode.IH(2) [OF br] bl lt show ?thesis by auto
  next
    case eq
    show ?thesis
    proof (cases l)
      case NoneT
      with eq br show ?thesis by simp
    next
      case l: (TreeNode lv ll lr)
      show ?thesis
      proof (cases r)
        case NoneT
        with eq l bl show ?thesis by simp
      next
        case r: (TreeNode rv rl rr)
        let ?m = "leftmost_val rv rl"
        have hd: "?m = hd (inorder r)"
          unfolding r by (rule leftmost_val_hd)
        have ne: "inorder r \<noteq> []" by (simp add: r)
        have min: "?m \<in> set (inorder r)" using hd ne by simp
        have srt: "sorted (inorder r)" by (rule bst_sorted_inorder [OF br])
        have least: "\<forall>x \<in> set (inorder r). ?m \<le> x"
          using srt hd ne by (cases "inorder r") auto
        have "v \<le> ?m" using ge min by blast
        then have l_lt: "\<forall>x \<in> set (inorder l). x < ?m" using lt by auto
        have r_ge: "\<forall>x \<in> set (inorder (delete_node r ?m)). ?m \<le> x"
          using least sub [OF br] by blast
        have "delete_node (TreeNode v l r) key = TreeNode ?m l (delete_node r ?m)"
          using eq l r by simp
        then show ?thesis
          using bl TreeNode.IH(2) [OF br] l_lt r_ge by simp
      qed
    qed
  qed
qed

lemma count_list_pos_iff: "0 < count_list xs x \<longleftrightarrow> x \<in> set xs"
  using count_list_0_iff [of xs x] by auto

lemma set_inorder_delete_node:
  assumes "bst t"
  shows "x \<in> set (inorder (delete_node t key)) \<longleftrightarrow>
           (if x = key then 1 < count_list (inorder t) key else x \<in> set (inorder t))"
proof -
  have "x \<in> set (inorder (delete_node t key)) \<longleftrightarrow> x \<in> set (remove1 key (inorder t))"
    by (simp add: inorder_delete_node [OF assms])
  also have "\<dots> \<longleftrightarrow> 0 < count (mset (remove1 key (inorder t))) x"
    by (simp only: count_greater_zero_iff set_mset_mset)
  also have "\<dots> \<longleftrightarrow> 0 < count (mset (inorder t) - {#key#}) x"
    by simp
  also have "\<dots> \<longleftrightarrow> (if x = key then 1 < count_list (inorder t) key else x \<in> set (inorder t))"
    by (auto simp: count_mset count_list_pos_iff)
  finally show ?thesis .
qed

lemma count_list_build_bst: "count_list (inorder (build_bst xs)) v = count_list xs v"
  using mset_build_bst [of xs] by (metis count_mset)


subsection \<open>Positions of equal values\<close>

lemma subtree_val_in_tree: "subtree t p = TreeNode v l r \<Longrightarrow> v \<in> set (inorder t)"
  by (induction t p rule: subtree.induct) auto

lemma subtree_insert_bst_equal:
  "bst t \<Longrightarrow> subtree t p = TreeNode v l r \<Longrightarrow>
     subtree (insert_bst t v) p = TreeNode v l (insert_bst r v)"
proof (induction t p rule: subtree.induct)
  case (1 t)
  then show ?case by simp
next
  case (2 d ds)
  then show ?case by simp
next
  case (3 a tl tr ds)
  from "3.prems" have "v \<in> set (inorder tl)"
    by (auto dest: subtree_val_in_tree)
  with "3.prems" have "v < a" by simp
  with 3 show ?case by simp
next
  case (4 a tl tr ds)
  from "4.prems" have "v \<in> set (inorder tr)"
    by (auto dest: subtree_val_in_tree)
  with "4.prems" have "\<not> v < a" by auto
  with 4 show ?case by simp
qed


section \<open>Properties of the binary search tree\<close>

text \<open>
  C4.  For every finite sequence of values, the tree built by inserting them one by one
  with \<open>insert_bst\<close> satisfies the ordering invariant (left subtree strictly smaller,
  right subtree greater or equal, at every node); hence its in-order traversal is a
  non-decreasing sequence, and it lists exactly the inserted values.
\<close>

theorem insert_bst_sequence_ordered:
  "bst (build_bst xs) \<and> sorted (inorder (build_bst xs))
     \<and> mset (inorder (build_bst xs)) = mset xs"
  by (simp add: bst_build_bst bst_sorted_inorder mset_build_bst)

theorem insert_bst_sequence_ordered_witness:
  "inorder (build_bst [5, 3, 8, 1, 3 :: int]) = [1, 3, 3, 5, 8]
     \<and> bst (build_bst [5, 3, 8, 1, 3 :: int])
     \<and> sorted (inorder (build_bst [5, 3, 8, 1, 3 :: int]))"
  using insert_bst_sequence_ordered [of "[5, 3, 8, 1, 3 :: int]"]
  by (simp add: build_bst_def)

text \<open>
  C2, as the code has it.  \<open>delete_node\<close> removes one occurrence of the key.  For a tree
  built by \<open>insert_bst\<close> from a sequence containing \<open>v\<close>, after \<open>delete_node(root, v)\<close> a
  search for \<open>v\<close> succeeds exactly when \<open>v\<close> was inserted more than once (so it fails when
  \<open>v\<close> was inserted once), and every other inserted value is still found.  In the
  two-children case the node's value is replaced by the leftmost value of the right
  subtree, which is its minimum, and that value is then deleted from the right subtree.
\<close>

theorem delete_node_search_bst:
  assumes "(v :: 'a :: linorder) \<in> set xs"
  shows "(search_bst (delete_node (build_bst xs) v) v \<longleftrightarrow> 1 < count_list xs v)
    \<and> (\<forall>w \<in> set xs. w \<noteq> v \<longrightarrow> search_bst (delete_node (build_bst xs) v) w)
    \<and> (\<forall>(k :: 'a) lv ll lr rv rl rr.
          delete_node (TreeNode k (TreeNode lv ll lr) (TreeNode rv rl rr)) k
            = TreeNode (leftmost_val rv rl) (TreeNode lv ll lr)
                (delete_node (TreeNode rv rl rr) (leftmost_val rv rl))
          \<and> (bst (TreeNode rv rl rr) \<longrightarrow>
                leftmost_val rv rl = Min (set (inorder (TreeNode rv rl rr)))))"
proof (intro conjI ballI impI allI)
  let ?t = "build_bst xs"
  have b: "bst ?t" by (rule bst_build_bst)
  have bd: "bst (delete_node ?t v)" by (rule bst_delete_node [OF b])
  show "search_bst (delete_node ?t v) v \<longleftrightarrow> 1 < count_list xs v"
    by (simp add: search_bst_iff [OF bd] set_inorder_delete_node [OF b] count_list_build_bst)
  show "search_bst (delete_node ?t v) w" if "w \<in> set xs" "w \<noteq> v" for w
    using that
    by (simp add: search_bst_iff [OF bd] set_inorder_delete_node [OF b] set_build_bst)
next
  fix k :: 'a and lv ll lr rv rl rr
  show "delete_node (TreeNode k (TreeNode lv ll lr) (TreeNode rv rl rr)) k
          = TreeNode (leftmost_val rv rl) (TreeNode lv ll lr)
              (delete_node (TreeNode rv rl rr) (leftmost_val rv rl))"
    by simp
next
  fix rv :: 'a and rl rr
  let ?r = "TreeNode rv rl rr"
  assume br: "bst ?r"
  have hd: "leftmost_val rv rl = hd (inorder ?r)" by (rule leftmost_val_hd)
  have srt: "sorted (inorder ?r)" by (rule bst_sorted_inorder [OF br])
  have ne: "inorder ?r \<noteq> []" by simp
  from srt ne have "hd (inorder ?r) = Min (set (inorder ?r))"
    by (cases "inorder ?r") (auto simp: Min_insert2)
  with hd show "leftmost_val rv rl = Min (set (inorder ?r))" by simp
qed

theorem delete_node_search_bst_witness:
  "(3::int) \<in> set [5, 3, 8, 1, 9]
    \<and> \<not> search_bst (delete_node (build_bst [5, 3, 8, 1, 9 :: int]) 3) 3
    \<and> search_bst (delete_node (build_bst [5, 3, 8, 1, 9 :: int]) 3) 8
    \<and> delete_node (build_bst [5, 3, 8, 1, 9 :: int]) 5
         = TreeNode 8 (TreeNode 3 (TreeNode 1 NoneT NoneT) NoneT) (TreeNode 9 NoneT NoneT)"
proof -
  have h: "(3::int) \<in> set [5, 3, 8, 1, 9]" by simp
  show ?thesis
    using h delete_node_search_bst [OF h] by (simp add: build_bst_def)
qed

text \<open>
  The claim C2 as the specification words it fails when the deleted value was inserted
  more than once: one copy remains and is found.
\<close>

theorem delete_node_search_bst_counterexample:
  "(1::int) \<in> set [1, 1] \<and> search_bst (delete_node (build_bst [1, 1 :: int]) 1) 1"
  by (simp add: build_bst_def)

text \<open>
  C7.  In a binary search tree, at every node that holds a value equal to the inserted
  value \<open>v\<close> (the node at any position \<open>p\<close>), \<open>insert_bst\<close> leaves the node's value and its
  left subtree as they are and puts the new node into its right subtree.  The call
  returns the root of the updated tree: a new node for the empty tree, the same root node
  otherwise; the tree holds one more \<open>v\<close>.
\<close>

theorem insert_bst_duplicate_goes_right:
  assumes "bst t" and "subtree t p = TreeNode v l r"
  shows "subtree (insert_bst t v) p = TreeNode v l (insert_bst r v)
    \<and> mset (inorder (insert_bst t v)) = add_mset v (mset (inorder t))
    \<and> insert_bst NoneT v = TreeNode v NoneT NoneT
    \<and> (\<exists>a tl tr tl' tr'. t = TreeNode a tl tr \<and> insert_bst t v = TreeNode a tl' tr')"
proof -
  from assms(2) have "t \<noteq> NoneT"
    by (cases p) auto
  then obtain a tl tr where t: "t = TreeNode a tl tr"
    by (cases t) auto
  have "\<exists>tl' tr'. insert_bst t v = TreeNode a tl' tr'"
    unfolding t by simp
  with t subtree_insert_bst_equal [OF assms] mset_inorder_insert_bst [of t v]
  show ?thesis by auto
qed

theorem insert_bst_duplicate_goes_right_witness:
  "bst (build_bst [5, 3, 8, 5 :: int])
    \<and> build_bst [5, 3, 8, 5 :: int]
        = TreeNode 5 (TreeNode 3 NoneT NoneT) (TreeNode 8 (TreeNode 5 NoneT NoneT) NoneT)
    \<and> subtree (build_bst [5, 3, 8, 5 :: int]) [GoRight, GoLeft] = TreeNode 5 NoneT NoneT
    \<and> subtree (insert_bst (build_bst [5, 3, 8, 5 :: int]) 5) [GoRight, GoLeft]
        = TreeNode 5 NoneT (TreeNode 5 NoneT NoneT)"
proof -
  have h1: "bst (build_bst [5, 3, 8, 5 :: int])" by (rule bst_build_bst)
  have h2: "subtree (build_bst [5, 3, 8, 5 :: int]) [GoRight, GoLeft] = TreeNode 5 NoneT NoneT"
    by (simp add: build_bst_def)
  show ?thesis
    using h1 h2 insert_bst_duplicate_goes_right [OF h1 h2] by (simp add: build_bst_def)
qed

text \<open>
  C10.  Deleting a key that is not stored in the tree changes nothing: \<open>delete_node\<close>
  returns the tree it was given, so the in-order sequence of values is the original one.
  (This holds for every binary tree, ordered or not.)
\<close>

theorem delete_node_absent_key:
  "k \<notin> set (inorder t) \<Longrightarrow>
     delete_node t k = t \<and> inorder (delete_node t k) = inorder t"
  by (simp add: delete_node_absent)

theorem delete_node_absent_key_witness:
  "(4::int) \<notin> set (inorder (build_bst [5, 3, 8]))
    \<and> delete_node (build_bst [5, 3, 8 :: int]) 4 = build_bst [5, 3, 8]
    \<and> inorder (delete_node (build_bst [5, 3, 8 :: int]) 4) = [3, 5, 8]"
proof -
  have h: "(4::int) \<notin> set (inorder (build_bst [5, 3, 8]))"
    by (simp add: build_bst_def)
  show ?thesis
    using h delete_node_absent_key [OF h] by (simp add: build_bst_def)
qed


section \<open>Min-heap: the heap invariant\<close>

lemma bubble_up_unfold:
  "bubble_up h i =
     (if 0 < i \<and> h ! i < h ! ((i - 1) div 2)
      then bubble_up (swap h i ((i - 1) div 2)) ((i - 1) div 2) else h)"
  by (subst bubble_up.simps) (simp add: Let_def)

lemma bubble_down_unfold:
  "bubble_down h i =
     (if 2 * i + 1 < length h \<and> smallest_of h i \<noteq> i
      then bubble_down (swap h i (smallest_of h i)) (smallest_of h i) else h)"
  by (subst bubble_down.simps) (simp add: Let_def)

lemma smallest_of_cases:
  "smallest_of h i = i \<or> smallest_of h i = 2 * i + 1
     \<or> (smallest_of h i = 2 * i + 2 \<and> 2 * i + 2 < length h)"
  by (auto simp: smallest_of_def Let_def)

lemma is_heap_heap_from: "is_heap h \<longleftrightarrow> heap_from 0 h"
  by (simp add: is_heap_def heap_from_def)

lemma length_swap [simp]: "length (swap h i j) = length h"
  by (simp add: swap_def)

lemma nth_swap:
  "i < length h \<Longrightarrow> j < length h \<Longrightarrow>
     swap h i j ! k = (if k = j then h ! i else if k = i then h ! j else h ! k)"
  by (simp add: swap_def nth_list_update)

lemma mset_swap_heap: "i < length h \<Longrightarrow> j < length h \<Longrightarrow> mset (swap h i j) = mset h"
  unfolding swap_def by (metis mset_swap)

lemma length_bubble_up [simp]: "length (bubble_up h i) = length h"
  by (induction h i rule: bubble_up.induct) (subst bubble_up.simps, simp add: Let_def)

lemma mset_bubble_up: "i < length h \<Longrightarrow> mset (bubble_up h i) = mset h"
proof (induction h i rule: bubble_up.induct)
  case (1 h i)
  show ?case
  proof (cases "0 < i \<and> h ! i < h ! ((i - 1) div 2)")
    case True
    have p: "(i - 1) div 2 < length h" using "1.prems" by simp
    have "mset (bubble_up (swap h i ((i - 1) div 2)) ((i - 1) div 2))
            = mset (swap h i ((i - 1) div 2))"
      using True p by (intro "1.IH") simp_all
    with True "1.prems" p show ?thesis
      by (subst bubble_up_unfold) (simp add: mset_swap_heap)
  next
    case False
    then show ?thesis by (subst bubble_up_unfold) auto
  qed
qed

lemma length_bubble_down [simp]: "length (bubble_down h i) = length h"
  by (induction h i rule: bubble_down.induct) (subst bubble_down.simps, simp add: Let_def)

lemma smallest_of_less: "2 * i + 1 < length h \<Longrightarrow> smallest_of h i < length h"
  using smallest_of_cases [of h i] by auto

lemma mset_bubble_down: "mset (bubble_down h i) = mset h"
proof (induction h i rule: bubble_down.induct)
  case (1 h i)
  show ?case
  proof (cases "2 * i + 1 < length h \<and> smallest_of h i \<noteq> i")
    case True
    then have "mset (bubble_down (swap h i (smallest_of h i)) (smallest_of h i))
                 = mset (swap h i (smallest_of h i))"
      by (intro "1.IH") simp_all
    with True smallest_of_less [of i h] show ?thesis
      by (subst bubble_down_unfold) (simp add: mset_swap_heap)
  next
    case False
    then show ?thesis by (subst bubble_down_unfold) auto
  qed
qed

lemma parent_eq_iff: "0 < (c::nat) \<Longrightarrow> (c - 1) div 2 = i \<longleftrightarrow> c = 2 * i + 1 \<or> c = 2 * i + 2"
  by arith

lemma parent_less: "0 < (c::nat) \<Longrightarrow> (c - 1) div 2 < c"
  by arith

lemma bubble_up_is_heap:
  "i < length h \<Longrightarrow>
   (\<forall>c. 0 < c \<and> c < length h \<and> c \<noteq> i \<longrightarrow> h ! ((c - 1) div 2) \<le> h ! c) \<Longrightarrow>
   (0 < i \<longrightarrow> (\<forall>c. 0 < c \<and> c < length h \<and> (c - 1) div 2 = i
                   \<longrightarrow> h ! ((i - 1) div 2) \<le> h ! c)) \<Longrightarrow>
   is_heap (bubble_up h i)"
proof (induction h i rule: bubble_up.induct)
  case (1 h i)
  note edges = "1.prems"(2) and grand = "1.prems"(3)
  define p where "p = (i - 1) div 2"
  show ?case
  proof (cases "0 < i \<and> h ! i < h ! p")
    case False
    have "h ! ((c - 1) div 2) \<le> h ! c" if "0 < c" "c < length h" for c
    proof (cases "c = i")
      case True
      with False that show ?thesis by (auto simp: p_def)
    next
      case False
      with edges that show ?thesis by blast
    qed
    then have "is_heap h" by (simp add: is_heap_def)
    with False show ?thesis unfolding p_def by (subst bubble_up_unfold) auto
  next
    case True
    then have i0: "0 < i" and lt: "h ! i < h ! p" by simp_all
    have pi: "p < i" unfolding p_def using i0 by (rule parent_less)
    have il: "i < length h" by (rule "1.prems"(1))
    have pl: "p < length h" using pi il by simp
    define h' where "h' = swap h i p"
    have len: "length h' = length h" by (simp add: h'_def)
    have nth: "h' ! k = (if k = p then h ! i else if k = i then h ! p else h ! k)" for k
      unfolding h'_def by (rule nth_swap [OF il pl])
    have b: "\<forall>c. 0 < c \<and> c < length h' \<and> c \<noteq> p \<longrightarrow> h' ! ((c - 1) div 2) \<le> h' ! c"
    proof (intro allI impI, elim conjE)
      fix c assume c: "0 < c" "c < length h'" "c \<noteq> p"
      then have cl: "c < length h" by (simp add: len)
      define q where "q = (c - 1) div 2"
      show "h' ! ((c - 1) div 2) \<le> h' ! c"
        unfolding q_def [symmetric]
      proof (cases "c = i")
        case True
        then have "q = p" by (simp add: q_def p_def)
        with True lt pi show "h' ! q \<le> h' ! c" by (simp add: nth)
      next
        case ci: False
        then have hc: "h' ! c = h ! c" using c by (simp add: nth)
        have e: "h ! q \<le> h ! c" unfolding q_def using edges c(1) cl ci by blast
        consider (p) "q = p" | (i) "q = i" | (other) "q \<noteq> p" "q \<noteq> i" by blast
        then show "h' ! q \<le> h' ! c"
        proof cases
          case p
          with e lt have "h ! i \<le> h ! c" by auto
          with p ci c(3) show ?thesis by (simp add: nth)
        next
          case i
          then have "(c - 1) div 2 = i" by (simp add: q_def)
          then have "h ! p \<le> h ! c" unfolding p_def using grand i0 c(1) cl by blast
          with i pi ci c(3) show ?thesis by (simp add: nth)
        next
          case other
          with e ci c(3) show ?thesis by (simp add: nth)
        qed
      qed
    qed
    have g: "0 < p \<longrightarrow> (\<forall>c. 0 < c \<and> c < length h' \<and> (c - 1) div 2 = p
                \<longrightarrow> h' ! ((p - 1) div 2) \<le> h' ! c)"
    proof (intro allI impI, elim conjE)
      fix c assume p0: "0 < p" and c: "0 < c" "c < length h'" "(c - 1) div 2 = p"
      define pp where "pp = (p - 1) div 2"
      have ppp: "pp < p" unfolding pp_def using p0 by (rule parent_less)
      have hpp: "h' ! pp = h ! pp" using ppp pi by (simp add: nth)
      have e: "h ! pp \<le> h ! p" unfolding pp_def using edges p0 pl pi by blast
      have cp: "c \<noteq> p" using c(3) parent_less [OF c(1)] by simp
      have cl: "c < length h" using c(2) by (simp add: len)
      show "h' ! ((p - 1) div 2) \<le> h' ! c"
        unfolding pp_def [symmetric]
      proof (cases "c = i")
        case True
        have "h' ! i = h ! p" using pi by (simp add: nth)
        with e True show "h' ! pp \<le> h' ! c" by (simp add: hpp)
      next
        case False
        have "h ! ((c - 1) div 2) \<le> h ! c" using edges c(1) cl False by blast
        then have "h ! p \<le> h ! c" unfolding c(3) .
        with e have "h ! pp \<le> h ! c" by auto
        moreover have "h' ! c = h ! c" using False cp by (simp add: nth)
        ultimately show "h' ! pp \<le> h' ! c" by (simp add: hpp)
      qed
    qed
    have "is_heap (bubble_up h' p)"
      unfolding h'_def p_def
    proof (rule "1.IH")
      show "0 < i" by (rule i0)
      show "(i - 1) div 2 = (i - 1) div 2" ..
      show "h ! i < h ! ((i - 1) div 2)" using lt by (simp add: p_def)
      show "(i - 1) div 2 < length (swap h i ((i - 1) div 2))"
        using pl by (simp add: p_def)
      show "\<forall>c. 0 < c \<and> c < length (swap h i ((i - 1) div 2)) \<and> c \<noteq> (i - 1) div 2 \<longrightarrow>
              swap h i ((i - 1) div 2) ! ((c - 1) div 2) \<le> swap h i ((i - 1) div 2) ! c"
        using b unfolding h'_def p_def .
      show "0 < (i - 1) div 2 \<longrightarrow>
          (\<forall>c. 0 < c \<and> c < length (swap h i ((i - 1) div 2)) \<and> (c - 1) div 2 = (i - 1) div 2 \<longrightarrow>
            swap h i ((i - 1) div 2) ! (((i - 1) div 2 - 1) div 2) \<le> swap h i ((i - 1) div 2) ! c)"
        using g unfolding h'_def p_def .
    qed
    then have "is_heap (bubble_up (swap h i ((i - 1) div 2)) ((i - 1) div 2))"
      by (simp add: h'_def p_def)
    moreover have "0 < i \<and> h ! i < h ! ((i - 1) div 2)" using True by (simp add: p_def)
    ultimately show ?thesis by (subst bubble_up_unfold) (simp only: simp_thms if_True)
  qed
qed

lemma is_heap_push: "is_heap h \<Longrightarrow> is_heap (MinHeap_push h v)"
  unfolding MinHeap_push_def
proof (rule bubble_up_is_heap)
  assume h: "is_heap h"
  let ?h = "h @ [v]" and ?i = "length (h @ [v]) - 1"
  show "?i < length ?h" by simp
  show "\<forall>c. 0 < c \<and> c < length ?h \<and> c \<noteq> ?i \<longrightarrow> ?h ! ((c - 1) div 2) \<le> ?h ! c"
  proof (intro allI impI, elim conjE)
    fix c assume c: "0 < c" "c < length ?h" "c \<noteq> ?i"
    then have cl: "c < length h" by simp
    with parent_less [OF c(1)] have "(c - 1) div 2 < length h" by simp
    with cl h c(1) show "?h ! ((c - 1) div 2) \<le> ?h ! c"
      by (simp add: nth_append is_heap_def)
  qed
  show "0 < ?i \<longrightarrow> (\<forall>c. 0 < c \<and> c < length ?h \<and> (c - 1) div 2 = ?i
          \<longrightarrow> ?h ! ((?i - 1) div 2) \<le> ?h ! c)"
  proof (intro allI impI, elim conjE)
    fix c assume c: "0 < c" "c < length ?h" "(c - 1) div 2 = ?i"
    with parent_less [OF c(1)] have False by simp
    then show "?h ! ((?i - 1) div 2) \<le> ?h ! c" ..
  qed
qed

lemma mset_push: "mset (MinHeap_push h v) = add_mset v (mset h)"
  by (simp add: MinHeap_push_def mset_bubble_up)

lemma parent_eqD: "0 < (c::nat) \<Longrightarrow> (c - 1) div 2 = i \<Longrightarrow> c = 2 * i + 1 \<or> c = 2 * i + 2"
  by arith

lemma smallest_of_self:
  "2 * i + 1 < length h \<Longrightarrow> smallest_of h i = i \<Longrightarrow>
     h ! i \<le> h ! (2 * i + 1) \<and> (2 * i + 2 < length h \<longrightarrow> h ! i \<le> h ! (2 * i + 2))"
  by (auto simp: smallest_of_def Let_def split: if_splits)

lemma smallest_of_child:
  "2 * i + 1 < length h \<Longrightarrow> smallest_of h i \<noteq> i \<Longrightarrow>
     (smallest_of h i = 2 * i + 1 \<or> smallest_of h i = 2 * i + 2)
     \<and> smallest_of h i < length h
     \<and> h ! smallest_of h i < h ! i
     \<and> h ! smallest_of h i \<le> h ! (2 * i + 1)
     \<and> (2 * i + 2 < length h \<longrightarrow> h ! smallest_of h i \<le> h ! (2 * i + 2))"
  by (auto simp: smallest_of_def Let_def split: if_splits)

lemma bubble_down_heap_from:
  "k \<le> i \<Longrightarrow>
   (\<forall>c. 0 < c \<and> c < length h \<and> k \<le> (c - 1) div 2 \<and> (c - 1) div 2 \<noteq> i
        \<longrightarrow> h ! ((c - 1) div 2) \<le> h ! c) \<Longrightarrow>
   (0 < i \<and> k \<le> (i - 1) div 2 \<longrightarrow>
      (\<forall>c. 0 < c \<and> c < length h \<and> (c - 1) div 2 = i \<longrightarrow> h ! ((i - 1) div 2) \<le> h ! c)) \<Longrightarrow>
   heap_from k (bubble_down h i)"
proof (induction h i rule: bubble_down.induct)
  case (1 h i)
  note ki = "1.prems"(1) and edges = "1.prems"(2) and grand = "1.prems"(3)
  define s where "s = smallest_of h i"
  show ?case
  proof (cases "2 * i + 1 < length h \<and> s \<noteq> i")
    case False
    have "h ! ((c - 1) div 2) \<le> h ! c"
      if c: "0 < c" "c < length h" "k \<le> (c - 1) div 2" for c
    proof (cases "(c - 1) div 2 = i")
      case True
      have ch: "c = 2 * i + 1 \<or> c = 2 * i + 2"
        by (rule parent_eqD [OF c(1) True])
      with c(2) have "2 * i + 1 < length h" by auto
      with False have "smallest_of h i = i" by (simp add: s_def)
      from smallest_of_self [OF \<open>2 * i + 1 < length h\<close> this] ch c(2) True
      show ?thesis by auto
    next
      case False
      with edges c show ?thesis by blast
    qed
    then have "heap_from k h" by (simp add: heap_from_def)
    with False show ?thesis
      unfolding s_def by (subst bubble_down_unfold) auto
  next
    case True
    then have kids: "2 * i + 1 < length h" and si: "s \<noteq> i" by simp_all
    from smallest_of_child [OF kids] si
    have sc: "s = 2 * i + 1 \<or> s = 2 * i + 2" and sl: "s < length h"
      and slt: "h ! s < h ! i" and sl1: "h ! s \<le> h ! (2 * i + 1)"
      and sl2: "2 * i + 2 < length h \<longrightarrow> h ! s \<le> h ! (2 * i + 2)"
      by (simp_all add: s_def)
    have s0: "0 < s" using sc by auto
    have ps: "(s - 1) div 2 = i" using sc by auto
    have il: "i < length h" using kids by simp
    have smin: "h ! s \<le> h ! c" if "0 < c" "c < length h" "(c - 1) div 2 = i" for c
    proof -
      have "c = 2 * i + 1 \<or> c = 2 * i + 2" by (rule parent_eqD [OF that(1) that(3)])
      with that(2) sl1 sl2 show ?thesis by auto
    qed
    define h' where "h' = swap h i s"
    have len: "length h' = length h" by (simp add: h'_def)
    have nth: "h' ! x = (if x = s then h ! i else if x = i then h ! s else h ! x)" for x
      unfolding h'_def by (rule nth_swap [OF il sl])
    have b: "\<forall>c. 0 < c \<and> c < length h' \<and> k \<le> (c - 1) div 2 \<and> (c - 1) div 2 \<noteq> s
                \<longrightarrow> h' ! ((c - 1) div 2) \<le> h' ! c"
    proof (intro allI impI, elim conjE)
      fix c assume c: "0 < c" "c < length h'" "k \<le> (c - 1) div 2" "(c - 1) div 2 \<noteq> s"
      have cl: "c < length h" using c(2) by (simp add: len)
      define q where "q = (c - 1) div 2"
      have qs: "q \<noteq> s" and kq: "k \<le> q" using c by (simp_all add: q_def)
      show "h' ! ((c - 1) div 2) \<le> h' ! c"
        unfolding q_def [symmetric]
      proof (cases "q = i")
        case True
        have hq: "h' ! q = h ! s" using True si by (simp add: nth)
        have ci: "c \<noteq> i" using True parent_less [OF c(1)] by (simp add: q_def)
        show "h' ! q \<le> h' ! c"
        proof (cases "c = s")
          case True
          with slt hq show ?thesis by (simp add: nth)
        next
          case False
          have "h ! s \<le> h ! c" using smin c(1) cl True by (simp add: q_def)
          with hq False ci show ?thesis by (simp add: nth)
        qed
      next
        case False
        have hq: "h' ! q = h ! q" using False qs by (simp add: nth)
        have cs: "c \<noteq> s" using False ps by (auto simp: q_def)
        show "h' ! q \<le> h' ! c"
        proof (cases "c = i")
          case True
          then have i0: "0 < i" and kpi: "k \<le> (i - 1) div 2"
            using c(1) kq by (simp_all add: q_def)
          with grand s0 sl ps have "h ! ((i - 1) div 2) \<le> h ! s" by blast
          then have "h ! q \<le> h ! s" by (simp add: q_def True)
          moreover have "h' ! c = h ! s" using True si by (simp add: nth)
          ultimately show ?thesis by (simp add: hq)
        next
          case ci: False
          have "h ! q \<le> h ! c" unfolding q_def
            using edges c(1) cl kq False by (simp add: q_def)
          moreover have "h' ! c = h ! c" using ci cs by (simp add: nth)
          ultimately show ?thesis by (simp add: hq)
        qed
      qed
    qed
    have g: "0 < s \<and> k \<le> (s - 1) div 2 \<longrightarrow>
               (\<forall>c. 0 < c \<and> c < length h' \<and> (c - 1) div 2 = s
                  \<longrightarrow> h' ! ((s - 1) div 2) \<le> h' ! c)"
    proof (intro allI impI, elim conjE)
      fix c assume c: "0 < c" "c < length h'" "(c - 1) div 2 = s"
      have cl: "c < length h" using c(2) by (simp add: len)
      have sc': "s < c" using parent_less [OF c(1)] c(3) by simp
      have is_lt: "i < s" using sc by auto
      have "k \<le> (c - 1) div 2" "(c - 1) div 2 \<noteq> i" using c(3) ki is_lt by simp_all
      with edges c(1) cl have "h ! ((c - 1) div 2) \<le> h ! c" by blast
      then have "h ! s \<le> h ! c" unfolding c(3) .
      moreover have "h' ! c = h ! c" using sc' is_lt by (simp add: nth)
      moreover have "h' ! i = h ! s" using si by (simp add: nth)
      ultimately show "h' ! ((s - 1) div 2) \<le> h' ! c" unfolding ps by simp
    qed
    have "heap_from k (bubble_down h' s)"
      unfolding h'_def s_def
    proof (rule "1.IH")
      show "2 * i + 1 < length h" by (rule kids)
      show "smallest_of h i = smallest_of h i" ..
      show "smallest_of h i \<noteq> i" using si by (simp add: s_def)
      show "k \<le> smallest_of h i" using ki sc by (auto simp: s_def)
      show "\<forall>c. 0 < c \<and> c < length (swap h i (smallest_of h i)) \<and> k \<le> (c - 1) div 2
                 \<and> (c - 1) div 2 \<noteq> smallest_of h i
              \<longrightarrow> swap h i (smallest_of h i) ! ((c - 1) div 2) \<le> swap h i (smallest_of h i) ! c"
        using b unfolding h'_def s_def .
      show "0 < smallest_of h i \<and> k \<le> (smallest_of h i - 1) div 2 \<longrightarrow>
              (\<forall>c. 0 < c \<and> c < length (swap h i (smallest_of h i))
                    \<and> (c - 1) div 2 = smallest_of h i
                 \<longrightarrow> swap h i (smallest_of h i) ! ((smallest_of h i - 1) div 2)
                       \<le> swap h i (smallest_of h i) ! c)"
        using g unfolding h'_def s_def .
    qed
    then have "heap_from k (bubble_down (swap h i (smallest_of h i)) (smallest_of h i))"
      by (simp add: h'_def s_def)
    moreover have "2 * i + 1 < length h \<and> smallest_of h i \<noteq> i"
      using True by (simp add: s_def)
    ultimately show ?thesis
      by (subst bubble_down_unfold) (simp only: simp_thms if_True)
  qed
qed

lemma is_heap_root_le: "is_heap h \<Longrightarrow> i < length h \<Longrightarrow> h ! 0 \<le> h ! i"
proof (induction i rule: less_induct)
  case (less i)
  show ?case
  proof (cases "i = 0")
    case True
    then show ?thesis by simp
  next
    case False
    then have i0: "0 < i" by simp
    have p: "(i - 1) div 2 < i" by (rule parent_less [OF i0])
    with less.prems have "h ! 0 \<le> h ! ((i - 1) div 2)"
      by (intro less.IH) simp_all
    moreover have "h ! ((i - 1) div 2) \<le> h ! i"
      using less.prems i0 by (simp add: is_heap_def)
    ultimately show ?thesis by (rule order_trans)
  qed
qed

lemma is_heap_root_least: "is_heap h \<Longrightarrow> y \<in> set h \<Longrightarrow> h ! 0 \<le> y"
  by (auto simp: in_set_conv_nth is_heap_root_le)

lemma mset_move_last_to_root:
  "2 \<le> length h \<Longrightarrow> mset ((butlast h)[0 := last h]) = mset h - {#h ! 0#}"
proof -
  assume "2 \<le> length h"
  then obtain x t where h: "h = x # t" and t: "t \<noteq> []"
    by (cases h) (auto simp: Suc_le_eq)
  from t obtain m l where tl: "t = m @ [l]"
    by (cases t rule: rev_cases) auto
  show ?thesis by (simp add: h tl)
qed

lemma MinHeap_pop_heap:
  assumes "is_heap h" and "h \<noteq> []"
  shows "\<exists>h'. MinHeap_pop h = Inr (h ! 0, h') \<and> is_heap h'
           \<and> mset h' = mset h - {#h ! 0#} \<and> length h' = length h - 1"
proof (cases "length h = 1")
  case True
  then obtain x where h: "h = [x]"
    by (cases h) auto
  then show ?thesis by (simp add: MinHeap_pop_def is_heap_def)
next
  case False
  with assms(2) have len: "2 \<le> length h"
    by (cases h) (auto simp: Suc_le_eq)
  define g where "g = (butlast h)[0 := last h]"
  have lg: "length g = length h - 1" by (simp add: g_def)
  have "heap_from 0 (bubble_down g 0)"
  proof (rule bubble_down_heap_from)
    show "(0::nat) \<le> 0" ..
    show "\<forall>c. 0 < c \<and> c < length g \<and> 0 \<le> (c - 1) div 2 \<and> (c - 1) div 2 \<noteq> 0
            \<longrightarrow> g ! ((c - 1) div 2) \<le> g ! c"
    proof (intro allI impI, elim conjE)
      fix c assume c: "0 < c" "c < length g" "(c - 1) div 2 \<noteq> 0"
      have cl: "c < length h" using c(2) lg by simp
      have pl: "(c - 1) div 2 < length h - 1"
        using parent_less [OF c(1)] c(2) lg by simp
      have "g ! c = h ! c" using c(1,2) lg by (simp add: g_def nth_butlast)
      moreover have "g ! ((c - 1) div 2) = h ! ((c - 1) div 2)"
        using c(3) pl by (simp add: g_def nth_butlast)
      moreover have "h ! ((c - 1) div 2) \<le> h ! c"
        using assms(1) c(1) cl by (simp add: is_heap_def)
      ultimately show "g ! ((c - 1) div 2) \<le> g ! c" by simp
    qed
    show "0 < (0::nat) \<and> 0 \<le> (0 - 1) div 2 \<longrightarrow>
            (\<forall>c. 0 < c \<and> c < length g \<and> (c - 1) div 2 = 0 \<longrightarrow> g ! ((0 - 1) div 2) \<le> g ! c)"
      by simp
  qed
  then have "is_heap (bubble_down g 0)" by (simp add: is_heap_heap_from)
  moreover have "mset (bubble_down g 0) = mset h - {#h ! 0#}"
    by (simp add: mset_bubble_down g_def mset_move_last_to_root [OF len])
  moreover have "MinHeap_pop h = Inr (h ! 0, bubble_down g 0)"
    using False assms(2) by (simp add: MinHeap_pop_def g_def)
  ultimately show ?thesis by (simp add: lg)
qed

lemma MinHeap_pop_empty: "MinHeap_pop [] = Inl IndexError"
  by (simp add: MinHeap_pop_def)

lemma pop_n_sorted: "is_heap h \<Longrightarrow> length h = n \<Longrightarrow> pop_n n h = Inr (sort h, [])"
proof (induction n arbitrary: h)
  case 0
  then show ?case by simp
next
  case (Suc n)
  then have ne: "h \<noteq> []" by auto
  from MinHeap_pop_heap [OF Suc.prems(1) ne] obtain h'
    where pop: "MinHeap_pop h = Inr (h ! 0, h')" and heap': "is_heap h'"
      and ms: "mset h' = mset h - {#h ! 0#}" and len: "length h' = length h - 1"
    by blast
  have rest: "pop_n n h' = Inr (sort h', [])"
    using heap' len Suc.prems(2) by (intro Suc.IH) simp_all
  have h0: "h ! 0 \<in> set h" using ne by simp
  have sub: "set h' \<subseteq> set h"
  proof
    fix y assume "y \<in> set h'"
    then have "y \<in># mset h - {#h ! 0#}" using ms by (metis set_mset_mset)
    then show "y \<in> set h" by (metis in_diffD set_mset_mset)
  qed
  have "sorted (h ! 0 # sort h')"
    using sub is_heap_root_least [OF Suc.prems(1)] by auto
  moreover have "mset (h ! 0 # sort h') = mset h"
    using ms h0 by simp
  ultimately have "sort h = h ! 0 # sort h'"
    by (intro properties_for_sort) simp_all
  with pop rest show ?case by simp
qed

subsection \<open>Pushing a sequence\<close>

lemma is_heap_foldl_push: "is_heap h \<Longrightarrow> is_heap (foldl MinHeap_push h xs)"
  by (induction xs arbitrary: h) (simp_all add: is_heap_push)

lemma mset_foldl_push: "mset (foldl MinHeap_push h xs) = mset h + mset xs"
  by (induction xs arbitrary: h) (simp_all add: mset_push)

subsection \<open>heapify\<close>

lemma heap_from_half: "heap_from (length h div 2) h"
  unfolding heap_from_def
proof (intro allI impI, elim conjE)
  fix c assume "0 < c" "c < length h" "length h div 2 \<le> (c - 1) div 2"
  then have False by arith
  then show "h ! ((c - 1) div 2) \<le> h ! c" ..
qed

lemma heap_from_step: "heap_from (Suc k) h \<Longrightarrow> heap_from k (bubble_down h k)"
proof (rule bubble_down_heap_from)
  assume h: "heap_from (Suc k) h"
  show "k \<le> k" ..
  show "\<forall>c. 0 < c \<and> c < length h \<and> k \<le> (c - 1) div 2 \<and> (c - 1) div 2 \<noteq> k
          \<longrightarrow> h ! ((c - 1) div 2) \<le> h ! c"
    using h by (auto simp: heap_from_def)
  show "0 < k \<and> k \<le> (k - 1) div 2 \<longrightarrow>
          (\<forall>c. 0 < c \<and> c < length h \<and> (c - 1) div 2 = k \<longrightarrow> h ! ((k - 1) div 2) \<le> h ! c)"
    using parent_less [of k] by auto
qed

lemma heap_from_foldl_bubble_down:
  "heap_from k h \<Longrightarrow> heap_from 0 (foldl bubble_down h (rev [0..<k]))"
  by (induction k arbitrary: h) (simp_all add: heap_from_step)

lemma mset_foldl_bubble_down: "mset (foldl bubble_down h is) = mset h"
  by (induction "is" arbitrary: h) (simp_all add: mset_bubble_down)

lemma is_heap_heapify: "is_heap (heapify h)"
  unfolding heapify_def is_heap_heap_from
  by (rule heap_from_foldl_bubble_down [OF heap_from_half])

lemma mset_heapify: "mset (heapify h) = mset h"
  by (simp add: heapify_def mset_foldl_bubble_down)

lemma sort_cong_mset: "mset xs = mset ys \<Longrightarrow> sort xs = sort ys"
  by (metis properties_for_sort sorted_sort mset_sort)

lemma is_heap_MinHeap_run: "is_heap h0 \<Longrightarrow> MinHeap_run h0 ops = Inr h \<Longrightarrow> is_heap h"
proof (induction h0 ops rule: MinHeap_run.induct)
  case (1 h0)
  then show ?case by simp
next
  case (2 h0 v ops)
  then show ?case by (simp add: is_heap_push)
next
  case (3 h0 ops)
  show ?case
  proof (cases "h0 = []")
    case True
    with "3.prems"(2) show ?thesis by (simp add: MinHeap_pop_empty)
  next
    case False
    from MinHeap_pop_heap [OF "3.prems"(1) False] obtain h' where
      p: "MinHeap_pop h0 = Inr (h0 ! 0, h')" and hp: "is_heap h'" by blast
    with "3.prems"(2) have "MinHeap_run h' ops = Inr h" by simp
    with "3.IH" [OF p refl hp] show ?thesis by simp
  qed
qed

lemma heappop_n_eq_pop_n: "heappop_n n h = pop_n n h"
  by (induction n arbitrary: h) (simp_all add: heappop_def split: sum.splits prod.splits)


section \<open>Properties of the min-heap, the stack and the queue\<close>

text \<open>
  C1.  For every finite sequence \<open>xs\<close> of values pushed into an empty \<open>MinHeap\<close>, calling
  \<open>pop\<close> as many times as values were pushed raises no error, leaves the heap empty and
  returns the values in non-decreasing order: the returned sequence is the sorted
  permutation of \<open>xs\<close>.  The same holds for \<open>heap_sort\<close>, which heapifies the sequence and
  pops it empty.  In particular the heap built from 5, 3, 8, 1 yields 1, 3, 5, 8 over four
  successive pops.
\<close>

theorem MinHeap_pops_sorted:
  "pop_n (length xs) (foldl MinHeap_push [] xs) = Inr (sort xs, [])
   \<and> heap_sort xs = Inr (sort xs)
   \<and> pop_n 4 (foldl MinHeap_push [] [5, 3, 8, 1 :: int]) = Inr ([1, 3, 5, 8], [])
   \<and> heap_sort [5, 3, 8, 1 :: int] = Inr [1, 3, 5, 8]"
proof (intro conjI)
  let ?h = "foldl MinHeap_push [] xs"
  have hp: "is_heap ?h" by (rule is_heap_foldl_push) (simp add: is_heap_def)
  have ms: "mset ?h = mset xs" by (simp add: mset_foldl_push)
  then have len: "length ?h = length xs" by (metis size_mset)
  have "pop_n (length xs) ?h = Inr (sort ?h, [])"
    by (rule pop_n_sorted [OF hp len])
  also have "sort ?h = sort xs" by (rule sort_cong_mset [OF ms])
  finally show "pop_n (length xs) ?h = Inr (sort xs, [])" .
  have "pop_n (length (heapify xs)) (heapify xs) = Inr (sort (heapify xs), [])"
    by (rule pop_n_sorted [OF is_heap_heapify refl])
  moreover have "sort (heapify xs) = sort xs"
    by (rule sort_cong_mset [OF mset_heapify])
  ultimately show "heap_sort xs = Inr (sort xs)"
    by (simp add: heap_sort_def heappop_n_eq_pop_n)
  show "pop_n 4 (foldl MinHeap_push [] [5, 3, 8, 1 :: int]) = Inr ([1, 3, 5, 8], [])"
    by code_simp
  show "heap_sort [5, 3, 8, 1 :: int] = Inr [1, 3, 5, 8]"
    by code_simp
qed

theorem MinHeap_pops_sorted_witness:
  "pop_n 6 (foldl MinHeap_push [] [4, 1, 7, 3, 8, 1 :: int]) = Inr ([1, 1, 3, 4, 7, 8], [])
   \<and> heap_sort [4, 1, 7, 3, 8, 1 :: int] = Inr [1, 1, 3, 4, 7, 8]"
proof -
  have s: "sort [4, 1, 7, 3, 8, 1 :: int] = [1, 1, 3, 4, 7, 8]" by code_simp
  have l: "length [4, 1, 7, 3, 8, 1 :: int] = 6" by simp
  from MinHeap_pops_sorted [of "[4, 1, 7, 3, 8, 1 :: int]"] show ?thesis
    unfolding s l by blast
qed

text \<open>
  C5, as the code has it.  Popping an empty \<open>MinHeap\<close>, popping an empty \<open>Stack\<close> and
  dequeuing an empty \<open>Queue\<close> raise \<open>IndexError\<close>; no default value is returned.  Peeking
  an empty \<open>Stack\<close> and asking for the front of an empty \<open>Queue\<close> raise nothing: they return
  \<open>None\<close>.  That result tells "empty" from stored data exactly when \<open>None\<close> itself is never
  stored: for a container holding no \<open>None\<close>, \<open>peek\<close> and \<open>front\<close> return \<open>None\<close> if and only
  if the container is empty.
\<close>

theorem empty_pop_raises_peek_returns_None:
  "MinHeap_pop ([] :: 'a::linorder list) = Inl IndexError
   \<and> Stack_pop ([] :: 'a pyobj list) = Inl IndexError
   \<and> Queue_dequeue ([] :: 'a pyobj list) = Inl IndexError
   \<and> Stack_peek ([] :: 'a pyobj list) = Inr PyNone
   \<and> Queue_front ([] :: 'a pyobj list) = Inr PyNone
   \<and> (PyNone \<notin> set (data :: 'a pyobj list) \<longrightarrow>
         (Stack_peek data = Inr PyNone \<longleftrightarrow> data = [])
       \<and> (Queue_front data = Inr PyNone \<longleftrightarrow> data = []))"
proof -
  have "last data \<noteq> PyNone" if "PyNone \<notin> set data" "data \<noteq> []"
    using that last_in_set [of data] by metis
  moreover have "hd data \<noteq> PyNone" if "PyNone \<notin> set data" "data \<noteq> []"
    using that hd_in_set [of data] by metis
  ultimately show ?thesis
    by (cases data)
      (auto simp: MinHeap_pop_def Stack_pop_def Queue_dequeue_def Stack_peek_def Queue_front_def)
qed

theorem empty_pop_raises_peek_returns_None_witness:
  "PyNone \<notin> set [PyVal 1, PyVal (2 :: int)]
   \<and> Stack_peek [PyVal 1, PyVal (2 :: int)] = Inr (PyVal 2)
   \<and> Stack_peek [PyVal 1, PyVal (2 :: int)] \<noteq> Inr PyNone
   \<and> Queue_front [PyVal 1, PyVal (2 :: int)] \<noteq> Inr PyNone
   \<and> Stack_pop ([] :: int pyobj list) = Inl IndexError"
proof -
  have h: "PyNone \<notin> set [PyVal 1, PyVal (2 :: int)]" by simp
  show ?thesis
    using h empty_pop_raises_peek_returns_None [where data = "[PyVal 1, PyVal (2 :: int)]"]
    by (simp add: Stack_peek_def)
qed

text \<open>
  The claim C5 as the specification words it fails for \<open>peek\<close>: on the empty stack it
  reports no error, and the \<open>None\<close> it returns is also what it returns for a stack whose
  top element is the stored value \<open>None\<close>.
\<close>

theorem Stack_peek_empty_counterexample:
  "Stack_peek ([] :: int pyobj list) = Inr PyNone
   \<and> Stack_peek (Stack_push ([] :: int pyobj list) PyNone) = Inr PyNone
   \<and> Stack_push ([] :: int pyobj list) PyNone \<noteq> []"
  by (simp add: Stack_peek_def Stack_push_def)

text \<open>
  Priority extraction under any interleaving.  After any sequence of \<open>push\<close> and \<open>pop\<close>
  calls that raised no error, the list is a heap; if it is not empty, the next \<open>pop\<close>
  returns the minimum of the stored values and removes one occurrence of it.
\<close>

theorem MinHeap_pop_returns_minimum:
  assumes "MinHeap_run [] ops = Inr h" and "h \<noteq> []"
  shows "\<exists>h'. MinHeap_pop h = Inr (Min (set h), h') \<and> mset h' = mset h - {#Min (set h)#}
           \<and> is_heap h \<and> is_heap h'"
proof -
  have "is_heap h"
    by (rule is_heap_MinHeap_run [OF _ assms(1)]) (simp add: is_heap_def)
  moreover from this have "h ! 0 = Min (set h)"
    using assms(2) is_heap_root_least [of h] by (intro Min_eqI [symmetric]) auto
  ultimately show ?thesis
    using MinHeap_pop_heap [of h] assms(2) by auto
qed

theorem MinHeap_pop_returns_minimum_witness:
  "MinHeap_run [] [Push 5, Push 3, Pop, Push 8, Push (1 :: int)] = Inr [1, 8, 5]
   \<and> MinHeap_pop [1, 8, 5 :: int] = Inr (1, [5, 8])"
proof -
  have r: "MinHeap_run [] [Push 5, Push 3, Pop, Push 8, Push (1 :: int)] = Inr [1, 8, 5]"
    by code_simp
  have p: "MinHeap_pop [1, 8, 5 :: int] = Inr (1, [5, 8])" by code_simp
  from MinHeap_pop_returns_minimum [OF r] r p show ?thesis by simp
qed


section \<open>Linked list: chains of nodes in the store\<close>

lemma list_at_unique: "list_at st p as \<Longrightarrow> list_at st p bs \<Longrightarrow> as = bs"
proof (induction as arbitrary: p bs)
  case Nil
  then show ?case by (cases bs) auto
next
  case (Cons a as)
  then show ?case by (cases bs) auto
qed

lemma list_at_suffix:
  "list_at st p (as @ bs) \<Longrightarrow> \<exists>q. list_at st q bs"
  by (induction as arbitrary: p) auto

lemma list_at_head_notin: "list_at st (next (cell st a)) as \<Longrightarrow> a \<notin> set as"
proof
  assume l: "list_at st (next (cell st a)) as" and "a \<in> set as"
  then obtain bs cs where as: "as = bs @ a # cs"
    by (auto simp: in_set_conv_decomp)
  have "\<exists>q. list_at st q (a # cs)"
    using l unfolding as by (rule list_at_suffix)
  then have "list_at st (next (cell st a)) cs" by auto
  from list_at_unique [OF l this] as show False by simp
qed

lemma list_at_distinct: "list_at st p as \<Longrightarrow> distinct as"
  by (induction as arbitrary: p) (auto dest: list_at_head_notin)

lemma cell_set_next: "cell (set_next st a nx) b = (if b = a then (cell st a)\<lparr>next := nx\<rparr> else cell st b)"
  by (simp add: set_next_def)

lemma val_set_next [simp]: "val (cell (set_next st a nx) b) = val (cell st b)"
  by (simp add: cell_set_next)

lemma list_at_set_next:
  "a \<notin> set as \<Longrightarrow> list_at (set_next st a nx) p as = list_at st p as"
  by (induction as arbitrary: p) (auto simp: cell_set_next)

lemma to_list_loop_list_at:
  "list_at st p as \<Longrightarrow> to_list_loop st out p = Some (out @ map (\<lambda>a. val (cell st a)) as)"
proof (induction as arbitrary: p out)
  case Nil
  then show ?case by (subst to_list_loop.simps) simp
next
  case (Cons a as)
  then have p: "p = Some a" and rest: "list_at st (next (cell st a)) as" by simp_all
  show ?case
    by (subst to_list_loop.simps) (simp add: p Cons.IH [OF rest])
qed

lemma reverse_loop_list_at:
  "list_at st p as \<Longrightarrow> list_at st prev bs \<Longrightarrow> set as \<inter> set bs = {} \<Longrightarrow>
     \<exists>st' q. reverse_loop st prev p = Some (st', q) \<and> list_at st' q (rev as @ bs)
        \<and> (\<forall>a. val (cell st' a) = val (cell st a))"
proof (induction as arbitrary: st p prev bs)
  case Nil
  then show ?case by (subst reverse_loop.simps) simp
next
  case (Cons a as)
  from Cons.prems(1) have p: "p = Some a" and rest: "list_at st (next (cell st a)) as"
    by simp_all
  have a_as: "a \<notin> set as" by (rule list_at_head_notin [OF rest])
  have a_bs: "a \<notin> set bs" using Cons.prems(3) by simp
  let ?st = "set_next st a prev"
  have 1: "list_at ?st (next (cell st a)) as"
    using rest a_as by (simp add: list_at_set_next)
  have 2: "list_at ?st (Some a) (a # bs)"
    using Cons.prems(2) a_bs by (simp add: list_at_set_next cell_set_next)
  have 3: "set as \<inter> set (a # bs) = {}"
    using Cons.prems(3) a_as by auto
  from Cons.IH [OF 1 2 3] obtain st' q
    where "reverse_loop ?st (Some a) (next (cell st a)) = Some (st', q)"
      and "list_at st' q (rev as @ a # bs)"
      and "\<forall>b. val (cell st' b) = val (cell ?st b)"
    by blast
  then show ?case
    by (subst reverse_loop.simps) (simp add: p)
qed

lemma reverse_list_list_at:
  assumes "list_at st p as"
  shows "\<exists>st' q. reverse_list st p = Some (st', q) \<and> list_at st' q (rev as)
           \<and> (\<forall>a. val (cell st' a) = val (cell st a))"
  using reverse_loop_list_at [OF assms, of None "[]"] by (simp add: reverse_list_def)

subsection \<open>The loop of \<open>delete_val\<close>\<close>

lemma list_at_cong_cells:
  "(\<forall>a \<in> set as. cell st' a = cell st a) \<Longrightarrow> list_at st' p as = list_at st p as"
  by (induction as arbitrary: p) auto

lemma delete_val_loop_absent:
  "list_at st cur cs \<Longrightarrow> \<forall>a \<in> set cs. val (cell st a) \<noteq> v \<Longrightarrow>
     delete_val_loop st ll v prev cur = Some (st, ll)"
proof (induction cs arbitrary: prev cur)
  case Nil
  then show ?case by (subst delete_val_loop.simps) simp
next
  case (Cons c cs)
  then have cur: "cur = Some c" and rest: "list_at st (next (cell st c)) cs"
    and ne: "val (cell st c) \<noteq> v" and all: "\<forall>a \<in> set cs. val (cell st a) \<noteq> v"
    by simp_all
  show ?case
    by (subst delete_val_loop.simps) (simp add: cur ne Cons.IH [OF rest all])
qed

lemma delete_val_loop_found:
  "list_at st cur (bs @ c # ds) \<Longrightarrow> \<forall>a \<in> set bs. val (cell st a) \<noteq> v \<Longrightarrow>
   val (cell st c) = v \<Longrightarrow>
     delete_val_loop st ll v prev cur =
       Some (set_next st (last (prev # bs)) (next (cell st c)),
             if Some c = tail ll then ll\<lparr>tail := Some (last (prev # bs))\<rparr> else ll)"
proof (induction bs arbitrary: prev cur)
  case Nil
  then show ?case by (subst delete_val_loop.simps) simp
next
  case (Cons b bs)
  then have cur: "cur = Some b" and rest: "list_at st (next (cell st b)) (bs @ c # ds)"
    and ne: "val (cell st b) \<noteq> v" and all: "\<forall>a \<in> set bs. val (cell st a) \<noteq> v"
    by simp_all
  show ?case
    by (subst delete_val_loop.simps) (simp add: cur ne Cons.IH [OF rest all Cons.prems(3)])
qed

lemma list_at_unlink:
  "list_at st p (bs @ c # ds) \<Longrightarrow> bs \<noteq> [] \<Longrightarrow>
     list_at (set_next st (last bs) (next (cell st c))) p (bs @ ds)"
proof (induction bs arbitrary: p)
  case Nil
  then show ?case by simp
next
  case (Cons b bs)
  from Cons.prems(1) have d: "distinct ((b # bs) @ c # ds)" by (rule list_at_distinct)
  from Cons.prems(1) have p: "p = Some b" and rest: "list_at st (next (cell st b)) (bs @ c # ds)"
    by simp_all
  show ?case
  proof (cases "bs = []")
    case True
    with rest have nb: "next (cell st b) = Some c" and tl: "list_at st (next (cell st c)) ds"
      by simp_all
    have "b \<notin> set ds" using d by simp
    with tl have "list_at (set_next st b (next (cell st c))) (next (cell st c)) ds"
      by (simp add: list_at_set_next)
    with True p show ?thesis by (simp add: cell_set_next)
  next
    case False
    then have lb: "last (b # bs) = last bs" by simp
    have "last bs \<in> set bs" using False by simp
    with d have neq: "b \<noteq> last bs" by auto
    from Cons.IH [OF rest False]
    have "list_at (set_next st (last bs) (next (cell st c))) (next (cell st b)) (bs @ ds)" .
    with p neq False show ?thesis by (simp add: lb cell_set_next)
  qed
qed


section \<open>Properties of the linked list\<close>

text \<open>
  C9.  For every finite singly linked list (the nodes at the addresses \<open>as\<close>, reached from
  \<open>h\<close>), \<open>reverse_list\<close> returns, and applied to its own result it returns again; the
  values read by \<open>to_list\<close> from the head returned by the second reversal are the values
  of the original list, in the original order.  (After one reversal they are in reverse
  order.)
\<close>

theorem reverse_list_twice:
  assumes "list_at st h as"
  shows "\<exists>st1 h1 st2 h2.
           reverse_list st h = Some (st1, h1) \<and> reverse_list st1 h1 = Some (st2, h2)
         \<and> to_list st h = Some (map (\<lambda>a. val (cell st a)) as)
         \<and> to_list st1 h1 = Some (rev (map (\<lambda>a. val (cell st a)) as))
         \<and> to_list st2 h2 = to_list st h"
proof -
  from reverse_list_list_at [OF assms] obtain st1 h1
    where r1: "reverse_list st h = Some (st1, h1)" and l1: "list_at st1 h1 (rev as)"
      and v1: "\<forall>a. val (cell st1 a) = val (cell st a)"
    by blast
  from reverse_list_list_at [OF l1] obtain st2 h2
    where r2: "reverse_list st1 h1 = Some (st2, h2)" and l2: "list_at st2 h2 as"
      and v2: "\<forall>a. val (cell st2 a) = val (cell st1 a)"
    by auto
  have t0: "to_list st h = Some (map (\<lambda>a. val (cell st a)) as)"
    unfolding to_list_def using to_list_loop_list_at [OF assms, of "[]"] by simp
  have t1: "to_list st1 h1 = Some (rev (map (\<lambda>a. val (cell st a)) as))"
    unfolding to_list_def using to_list_loop_list_at [OF l1, of "[]"] v1 by (simp add: rev_map)
  have t2: "to_list st2 h2 = Some (map (\<lambda>a. val (cell st a)) as)"
    unfolding to_list_def using to_list_loop_list_at [OF l2, of "[]"] v1 v2 by simp
  from r1 r2 t0 t1 t2 show ?thesis by simp
qed

theorem reverse_list_twice_witness:
  "list_at store123 (Some 0) [0, 1, 2]
   \<and> to_list store123 (Some 0) = Some [1, 2, 3]
   \<and> Option.bind (reverse_list store123 (Some 0)) (\<lambda>(st1, h1). to_list st1 h1) = Some [3, 2, 1]
   \<and> Option.bind (reverse_list store123 (Some 0))
        (\<lambda>(st1, h1). Option.bind (reverse_list st1 h1) (\<lambda>(st2, h2). to_list st2 h2))
       = Some [1, 2, 3]"
proof -
  have h: "list_at store123 (Some 0) [0, 1, 2]"
    by (simp add: store123_def)
  from reverse_list_twice [OF h] obtain st1 h1 st2 h2 where
    "reverse_list store123 (Some 0) = Some (st1, h1)" "reverse_list st1 h1 = Some (st2, h2)"
    "to_list store123 (Some 0) = Some (map (\<lambda>a. val (cell store123 a)) [0, 1, 2])"
    "to_list st1 h1 = Some (rev (map (\<lambda>a. val (cell store123 a)) [0, 1, 2]))"
    "to_list st2 h2 = to_list store123 (Some 0)"
    by blast
  with h show ?thesis by (simp add: store123_def)
qed

text \<open>
  C6 at the input on which the code departs from it: a list with one node, whose value is
  deleted.  \<open>insert_end(1)\<close> puts the node at address 0; \<open>delete_val(1)\<close> allocates its
  sentinel at address 1, unlinks node 0 and, since node 0 is the tail, stores \<open>prev\<close> in
  \<open>tail\<close>, and \<open>prev\<close> is the sentinel.  Afterwards \<open>head\<close> is \<open>None\<close> but \<open>tail\<close> refers to
  the sentinel: the two do not denote the same (empty) list.  A following
  \<open>insert_end(2)\<close> links the new node behind the sentinel and leaves \<open>head\<close> at \<open>None\<close>, so
  \<open>find(2)\<close> is false and the list read from \<open>head\<close> is empty.
\<close>

theorem delete_val_only_node_leaves_tail_at_sentinel:
  "map_option snd (delete_val (insert_end (store0, LinkedList_init) 1) 1)
     = Some \<lparr>head = None, tail = Some 1\<rparr>
   \<and> map_option (\<lambda>s. snd (insert_end s 2)) (delete_val (insert_end (store0, LinkedList_init) 1) 1)
     = Some \<lparr>head = None, tail = Some 2\<rparr>
   \<and> Option.bind (delete_val (insert_end (store0, LinkedList_init) 1) 1)
        (\<lambda>s. LinkedList_find (insert_end s 2) 2) = Some False
   \<and> Option.bind (delete_val (insert_end (store0, LinkedList_init) 1) 1)
        (\<lambda>s. to_list (fst (insert_end s 2)) (head (snd (insert_end s 2)))) = Some []"
  by (intro conjI; code_simp)

text \<open>
  What \<open>delete_val\<close> does on every well-formed list.  It returns; the chain read from
  \<open>head\<close> afterwards holds the old values with the first occurrence of \<open>v\<close> removed; when
  \<open>v\<close> does not occur (in particular on the empty list) the object is unchanged; and when
  the list is not empty afterwards it is well formed again, so \<open>tail\<close> is the last node also
  when the old tail was the node removed.  Only when the list becomes empty is \<open>tail\<close> left
  at the sentinel, the node allocated by the call (address \<open>fresh st\<close>).
\<close>

theorem delete_val_removes_first:
  assumes wf: "ll_wf st ll as"
  shows "\<exists>st' ll' as'.
           delete_val (st, ll) v = Some (st', ll')
         \<and> list_at st' (head ll') as'
         \<and> map (\<lambda>a. val (cell st' a)) as' = remove1 v (map (\<lambda>a. val (cell st a)) as)
         \<and> (as' \<noteq> [] \<longrightarrow> ll_wf st' ll' as')
         \<and> (v \<notin> set (map (\<lambda>a. val (cell st a)) as) \<longrightarrow> ll' = ll \<and> as' = as)
         \<and> (as \<noteq> [] \<and> as' = [] \<longrightarrow> tail ll' = Some (fresh st))"
proof -
  from wf have la: "list_at st (head ll) as"
    and tl: "tail ll = (if as = [] then None else Some (last as))"
    and fr: "\<forall>a \<in> set as. a < fresh st"
    by (simp_all add: ll_wf_def)
  define dummy where "dummy = fresh st"
  define st1 where "st1 = st\<lparr>cell := (cell st)(dummy := \<lparr>val = 0, next = head ll\<rparr>),
                              fresh := Suc (fresh st)\<rparr>"
  have nn: "new_node st 0 (head ll) = (dummy, st1)"
    by (simp add: new_node_def dummy_def st1_def)
  have dn: "dummy \<notin> set as" using fr by (auto simp: dummy_def)
  have c1: "cell st1 a = cell st a" if "a \<in> set as" for a
    using that dn by (auto simp: st1_def)
  have cd: "cell st1 dummy = \<lparr>val = 0, next = head ll\<rparr>" by (simp add: st1_def)
  have la1: "list_at st1 (head ll) as"
    using la c1 list_at_cong_cells [of as st1 st "head ll"] by blast
  have f1: "fresh st1 = Suc (fresh st)" by (simp add: st1_def)
  show ?thesis
  proof (cases "v \<in> set (map (\<lambda>a. val (cell st a)) as)")
    case False
    then have "\<forall>a \<in> set as. val (cell st1 a) \<noteq> v" using c1 by auto
    from delete_val_loop_absent [OF la1 this]
    have "delete_val (st, ll) v = Some (st1, ll\<lparr>head := next (cell st1 dummy)\<rparr>)"
      by (simp add: delete_val_def nn)
    then have dv: "delete_val (st, ll) v = Some (st1, ll)" by (simp add: cd)
    have "ll_wf st1 ll as"
      using la1 tl fr by (auto simp: ll_wf_def f1)
    moreover have "map (\<lambda>a. val (cell st1 a)) as = remove1 v (map (\<lambda>a. val (cell st a)) as)"
      using False c1 by (simp add: remove1_idem)
    ultimately show ?thesis
      using dv la1 False by (intro exI [of _ st1] exI [of _ ll] exI [of _ as]) simp
  next
    case True
    then obtain bs c ds where as: "as = bs @ c # ds"
      and nb: "\<forall>a \<in> set bs. val (cell st a) \<noteq> v" and vc: "val (cell st c) = v"
    proof -
      from split_list_first [OF True] obtain xs ys
        where sp: "map (\<lambda>a. val (cell st a)) as = xs @ v # ys" "v \<notin> set xs"
        by blast
      then obtain bs' c' ds' where e: "as = bs' @ c' # ds'"
        "map (\<lambda>a. val (cell st a)) bs' = xs" "val (cell st c') = v"
        by (auto simp: map_eq_append_conv map_eq_Cons_conv)
      from sp(2) e(2) have "v \<notin> (\<lambda>a. val (cell st a)) ` set bs'" by auto
      then have "\<forall>a \<in> set bs'. val (cell st a) \<noteq> v" by blast
      with e(1,3) show thesis using that by blast
    qed
    have d: "distinct as" by (rule list_at_distinct [OF la])
    define p where "p = last (dummy # bs)"
    define st2 where "st2 = set_next st1 p (next (cell st1 c))"
    define ll2 where "ll2 = (if Some c = tail ll then ll\<lparr>tail := Some p\<rparr> else ll)"
    have nb1: "\<forall>a \<in> set bs. val (cell st1 a) \<noteq> v" using nb c1 as by auto
    have vc1: "val (cell st1 c) = v" using vc c1 [of c] as by simp
    have loop: "delete_val_loop st1 ll v dummy (head ll) = Some (st2, ll2)"
      using delete_val_loop_found [OF la1 [unfolded as] nb1 vc1, of ll dummy]
      by (simp add: st2_def ll2_def p_def)
    define ll' where "ll' = ll2\<lparr>head := next (cell st2 dummy)\<rparr>"
    have dv: "delete_val (st, ll) v = Some (st2, ll')"
      by (simp add: delete_val_def nn loop ll'_def)
    have vals: "val (cell st2 a) = val (cell st a)" if "a \<in> set as" for a
      using c1 [OF that] by (simp add: st2_def)
    have la': "list_at st2 (head ll') (bs @ ds)"
    proof (cases "bs = []")
      case True
      then have pd: "p = dummy" by (simp add: p_def)
      have h': "head ll' = next (cell st1 c)"
        by (simp add: ll'_def st2_def pd cell_set_next)
      from la1 True as have "list_at st1 (next (cell st1 c)) ds" by simp
      moreover have "dummy \<notin> set ds" using dn as by simp
      ultimately show ?thesis
        using True by (simp add: h' st2_def pd list_at_set_next)
    next
      case False
      then have pl: "p = last bs" by (simp add: p_def)
      have "last bs \<in> set as" using False as by simp
      with dn have pdn: "p \<noteq> dummy" by (auto simp: pl)
      have h': "head ll' = head ll"
        using pdn by (simp add: ll'_def st2_def cell_set_next cd)
      from list_at_unlink [OF la1 [unfolded as] False]
      show ?thesis by (simp add: h' st2_def pl)
    qed
    have rm: "map (\<lambda>a. val (cell st2 a)) (bs @ ds) = remove1 v (map (\<lambda>a. val (cell st a)) as)"
    proof -
      have "v \<notin> set (map (\<lambda>a. val (cell st a)) bs)" using nb by auto
      then have "remove1 v (map (\<lambda>a. val (cell st a)) as)
                   = map (\<lambda>a. val (cell st a)) bs @ map (\<lambda>a. val (cell st a)) ds"
        by (simp add: as remove1_append vc)
      moreover have "map (\<lambda>a. val (cell st2 a)) (bs @ ds) = map (\<lambda>a. val (cell st a)) (bs @ ds)"
        using vals as by (intro map_cong) auto
      ultimately show ?thesis by simp
    qed
    have t': "tail ll' = (if Some c = tail ll then Some p else tail ll)"
      by (simp add: ll'_def ll2_def)
    have ct: "Some c = tail ll \<longleftrightarrow> ds = []"
    proof -
      have "last (c # ds) \<noteq> c" if "ds \<noteq> []"
      proof -
        from that have "last (c # ds) \<in> set ds" by simp
        with d as show ?thesis by auto
      qed
      then show ?thesis using tl as by auto
    qed
    have wf': "ll_wf st2 ll' (bs @ ds)" if ne: "bs @ ds \<noteq> []"
    proof -
      have "tail ll' = Some (last (bs @ ds))"
      proof (cases "ds = []")
        case True
        with ne have "bs \<noteq> []" by simp
        with True ct t' show ?thesis by (simp add: p_def)
      next
        case False
        with ct t' tl as show ?thesis by simp
      qed
      moreover have "\<forall>a \<in> set (bs @ ds). a < fresh st2"
      proof
        fix a assume "a \<in> set (bs @ ds)"
        then have "a \<in> set as" by (auto simp: as)
        with fr have "a < fresh st" by blast
        then show "a < fresh st2" by (simp add: st2_def set_next_def f1)
      qed
      ultimately show ?thesis using la' ne by (simp add: ll_wf_def)
    qed
    have sent: "tail ll' = Some (fresh st)" if "bs @ ds = []"
      using that ct t' by (simp add: p_def dummy_def)
    show ?thesis
      using dv la' rm wf' sent True
      by (intro exI [of _ st2] exI [of _ ll'] exI [of _ "bs @ ds"]) auto
  qed
qed

theorem delete_val_removes_first_witness:
  "ll_wf (fst (insert_end (insert_end (store0, LinkedList_init) 1) 3))
         (snd (insert_end (insert_end (store0, LinkedList_init) 1) 3)) [0, 1]
   \<and> map_option (\<lambda>s. (snd s, to_list (fst s) (head (snd s))))
         (delete_val (insert_end (insert_end (store0, LinkedList_init) 1) 3) 3)
       = Some (\<lparr>head = Some 0, tail = Some 0\<rparr>, Some [1])"
proof -
  let ?s = "insert_end (insert_end (store0, LinkedList_init) 1) 3"
  have h: "ll_wf (fst ?s) (snd ?s) [0, 1]"
    by (simp add: ll_wf_def insert_end_def new_node_def set_next_def store0_def
        LinkedList_init_def)
  have e: "map_option (\<lambda>s. (snd s, to_list (fst s) (head (snd s)))) (delete_val ?s 3)
             = Some (\<lparr>head = Some 0, tail = Some 0\<rparr>, Some [1 :: int])"
    by code_simp
  from delete_val_removes_first [OF h, of 3] h e show ?thesis by simp
qed


section \<open>Union-find: the forest and its roots\<close>

lemma walk_deterministic: "walk p x ys r \<Longrightarrow> walk p x zs s \<Longrightarrow> ys = zs \<and> r = s"
proof (induction arbitrary: zs s rule: walk.induct)
  case (walk_root x)
  from walk_root.prems walk_root.hyps show ?case
    by (cases rule: walk.cases) auto
next
  case (walk_step x ys r)
  from walk_step.prems walk_step.hyps(1,2) obtain zs' where
    "zs = x # zs'" "walk p (p ! x) zs' s"
    by (cases rule: walk.cases) auto
  with walk_step.IH show ?case by auto
qed

lemma walk_root_is_root: "walk p x ys r \<Longrightarrow> r < length p \<and> p ! r = r"
  by (induction rule: walk.induct) auto

lemma walk_start_in_range: "walk p x ys r \<Longrightarrow> x < length p"
  by (cases rule: walk.cases) auto

lemma walk_nodes_in_range: "walk p x ys r \<Longrightarrow> y \<in> set ys \<Longrightarrow> y < length p \<and> p ! y \<noteq> y"
  by (induction rule: walk.induct) auto

lemma walk_nodes_root: "walk p x ys r \<Longrightarrow> y \<in> set ys \<Longrightarrow> root_of p y r"
  unfolding root_of_def
  by (induction rule: walk.induct) (auto intro: walk.intros)

lemma walk_root_notin: "walk p x ys r \<Longrightarrow> r \<notin> set ys"
  using walk_nodes_in_range walk_root_is_root by blast

lemma root_of_unique: "root_of p x r \<Longrightarrow> root_of p x s \<Longrightarrow> r = s"
  unfolding root_of_def using walk_deterministic by blast

lemma root_of_root: "x < length p \<Longrightarrow> p ! x = x \<Longrightarrow> root_of p x r \<longleftrightarrow> r = x"
  unfolding root_of_def
  by (auto intro: walk.intros elim: walk.cases)

lemma root_of_step: "x < length p \<Longrightarrow> p ! x \<noteq> x \<Longrightarrow> root_of p x r \<longleftrightarrow> root_of p (p ! x) r"
  unfolding root_of_def
  by (auto intro: walk.intros elim: walk.cases)

lemma walk_rank_less_all:
  assumes inv: "uf_inv n uf"
  shows "walk (parent uf) x ys r \<Longrightarrow> \<forall>y \<in> set ys. rank uf ! y < rank uf ! r"
proof (induction rule: walk.induct)
  case (walk_root x)
  then show ?case by simp
next
  case (walk_step x ys r)
  have xn: "x < n" using walk_step.hyps(1) inv by (simp add: uf_inv_def)
  have lt: "rank uf ! x < rank uf ! (parent uf ! x)"
    using inv xn walk_step.hyps(2) by (simp add: uf_inv_def)
  have "rank uf ! x < rank uf ! r"
  proof (cases ys)
    case Nil
    with walk_step.hyps(3) have "parent uf ! x = r"
      by (auto elim: walk.cases)
    with lt show ?thesis by simp
  next
    case (Cons z zs)
    with walk_step.hyps(3) have z: "z = parent uf ! x"
      by (auto elim: walk.cases)
    have "rank uf ! z < rank uf ! r"
      using walk_step.IH Cons by simp
    with lt z show ?thesis by simp
  qed
  with walk_step.IH show ?case by simp
qed

lemma walk_rank_less:
  "uf_inv n uf \<Longrightarrow> walk (parent uf) x ys r \<Longrightarrow> y \<in> set ys \<Longrightarrow> rank uf ! y < rank uf ! r"
  using walk_rank_less_all by blast

lemma uf_inv_walk_exists:
  assumes inv: "uf_inv n uf"
  shows "x < n \<Longrightarrow> \<exists>ys r. walk (parent uf) x ys r"
proof (induction "Max (set (rank uf)) - rank uf ! x" arbitrary: x rule: less_induct)
  case less
  let ?p = "parent uf"
  have len: "length ?p = n" "length (rank uf) = n" using inv by (simp_all add: uf_inv_def)
  show ?case
  proof (cases "?p ! x = x")
    case True
    with less.prems len show ?thesis by (auto intro: walk.intros)
  next
    case False
    have pn: "?p ! x < n" using inv less.prems by (simp add: uf_inv_def)
    have lt: "rank uf ! x < rank uf ! (?p ! x)"
      using inv less.prems False by (simp add: uf_inv_def)
    have "rank uf ! (?p ! x) \<le> Max (set (rank uf))"
      using pn len by simp
    with lt have "Max (set (rank uf)) - rank uf ! (?p ! x) < Max (set (rank uf)) - rank uf ! x"
      by simp
    from less.hyps [OF this pn] obtain ys r where "walk ?p (?p ! x) ys r" by blast
    with False less.prems len have "walk ?p x (x # ys) r" by (auto intro: walk.intros)
    then show ?thesis by blast
  qed
qed

lemma uf_inv_root_exists: "uf_inv n uf \<Longrightarrow> x < n \<Longrightarrow> \<exists>r. root_of (parent uf) x r"
  unfolding root_of_def using uf_inv_walk_exists by blast

text \<open>What \<open>find\<close> computes along a walk.\<close>

lemma find_walk:
  "walk (parent uf) x ys r \<Longrightarrow>
     \<exists>p'. UnionFind_find uf x = Some (Inr (r, uf\<lparr>parent := p'\<rparr>))
        \<and> length p' = length (parent uf)
        \<and> (\<forall>i < length (parent uf). p' ! i = (if i \<in> set ys then r else parent uf ! i))"
proof (induction rule: walk.induct)
  case (walk_root x)
  have "UnionFind_find uf x = Some (Inr (x, uf\<lparr>parent := parent uf\<rparr>))"
    using walk_root by (subst UnionFind_find.simps) simp
  then show ?case by (intro exI [of _ "parent uf"]) simp
next
  case (walk_step x ys r)
  from walk_step.IH obtain p1 where
    f: "UnionFind_find uf (parent uf ! x) = Some (Inr (r, uf\<lparr>parent := p1\<rparr>))"
    and l: "length p1 = length (parent uf)"
    and nth: "\<forall>i < length (parent uf). p1 ! i = (if i \<in> set ys then r else parent uf ! i)"
    by blast
  have "UnionFind_find uf x = Some (Inr (r, uf\<lparr>parent := p1[x := r]\<rparr>))"
    using walk_step.hyps(1,2) l by (subst UnionFind_find.simps) (simp add: f)
  moreover have "\<forall>i < length (parent uf).
      p1[x := r] ! i = (if i \<in> set (x # ys) then r else parent uf ! i)"
  proof (intro allI impI)
    fix i assume i: "i < length (parent uf)"
    with nth have "p1 ! i = (if i \<in> set ys then r else parent uf ! i)" by blast
    with i l walk_step.hyps(1)
    show "p1[x := r] ! i = (if i \<in> set (x # ys) then r else parent uf ! i)"
      by (simp add: nth_list_update)
  qed
  ultimately show ?case using l by (intro exI [of _ "p1[x := r]"]) simp
qed

subsection \<open>Re-pointing nodes at their roots\<close>

lemma walk_start_in_nodes: "walk p x ys r \<Longrightarrow> x \<noteq> r \<Longrightarrow> x \<in> set ys"
  by (cases rule: walk.cases) auto

lemma repoint_forward:
  assumes len: "length p' = length p"
    and re: "\<forall>i < length p. p' ! i = p ! i \<or> root_of p i (p' ! i)"
  shows "walk p a zs r \<Longrightarrow> root_of p' a r"
proof (induction rule: walk.induct)
  case (walk_root a)
  from re walk_root have "p' ! a = a"
    by (auto simp: root_of_root)
  with walk_root len show ?case by (simp add: root_of_root)
next
  case (walk_step a ys r)
  have ra: "root_of p a r"
    unfolding root_of_def using walk.walk_step [OF walk_step.hyps] by blast
  have rr: "r < length p" "p ! r = r"
    using walk_root_is_root [OF walk_step.hyps(3)] by simp_all
  have ar: "a \<noteq> r" using rr walk_step.hyps(2) by auto
  from re rr have "p' ! r = r" by (auto simp: root_of_root)
  with rr len have r': "root_of p' r r" by (simp add: root_of_root)
  from re walk_step.hyps(1) consider "p' ! a = p ! a" | "root_of p a (p' ! a)" by blast
  then show ?case
  proof cases
    case 1
    with walk_step.hyps(1,2) walk_step.IH len show ?thesis
      by (simp add: root_of_step)
  next
    case 2
    with ra have "p' ! a = r" by (blast intro: root_of_unique)
    with ar r' walk_step.hyps(1) len show ?thesis
      by (simp add: root_of_step)
  qed
qed

lemma repoint_root_of:
  assumes inv: "uf_inv n uf" and len: "length p' = n"
    and re: "\<forall>i < n. p' ! i = parent uf ! i \<or> root_of (parent uf) i (p' ! i)"
    and a: "a < n"
  shows "root_of p' a r \<longleftrightarrow> root_of (parent uf) a r"
proof -
  have l: "length (parent uf) = n" using inv by (simp add: uf_inv_def)
  have fwd: "root_of (parent uf) a s \<Longrightarrow> root_of p' a s" for s
    unfolding root_of_def [of "parent uf"]
    using repoint_forward [of p' "parent uf"] len l re by auto
  from uf_inv_root_exists [OF inv a] obtain r0 where r0: "root_of (parent uf) a r0" ..
  show ?thesis
  proof
    assume "root_of p' a r"
    with fwd [OF r0] have "r = r0" by (blast intro: root_of_unique)
    with r0 show "root_of (parent uf) a r" by simp
  next
    assume "root_of (parent uf) a r"
    then show "root_of p' a r" by (rule fwd)
  qed
qed

lemma repoint_inv:
  assumes inv: "uf_inv n uf" and len: "length p' = n"
    and re: "\<forall>i < n. p' ! i = parent uf ! i \<or> root_of (parent uf) i (p' ! i)"
  shows "uf_inv n (uf\<lparr>parent := p'\<rparr>)"
proof -
  have l: "length (parent uf) = n" using inv by (simp add: uf_inv_def)
  have "p' ! i < n \<and> (p' ! i \<noteq> i \<longrightarrow> rank uf ! i < rank uf ! (p' ! i))" if i: "i < n" for i
  proof -
    from re i consider "p' ! i = parent uf ! i" | "root_of (parent uf) i (p' ! i)" by blast
    then show ?thesis
    proof cases
      case 1
      with inv i show ?thesis by (simp add: uf_inv_def)
    next
      case 2
      then obtain ys where w: "walk (parent uf) i ys (p' ! i)"
        by (auto simp: root_of_def)
      have "p' ! i < n" using walk_root_is_root [OF w] l by simp
      moreover have "rank uf ! i < rank uf ! (p' ! i)" if "p' ! i \<noteq> i"
        using walk_rank_less [OF inv w walk_start_in_nodes [OF w]] that by auto
      ultimately show ?thesis by simp
    qed
  qed
  with inv len show ?thesis by (simp add: uf_inv_def)
qed

text \<open>\<open>find\<close> on a well-formed forest.\<close>

lemma find_correct:
  assumes inv: "uf_inv n uf" and x: "x < n"
  shows "\<exists>ys r p'. walk (parent uf) x ys r
           \<and> UnionFind_find uf x = Some (Inr (r, uf\<lparr>parent := p'\<rparr>))
           \<and> length p' = n
           \<and> (\<forall>i < n. p' ! i = (if i \<in> set ys then r else parent uf ! i))
           \<and> uf_inv n (uf\<lparr>parent := p'\<rparr>)
           \<and> (\<forall>a < n. \<forall>s. root_of p' a s \<longleftrightarrow> root_of (parent uf) a s)"
proof -
  have l: "length (parent uf) = n" using inv by (simp add: uf_inv_def)
  from uf_inv_walk_exists [OF inv x] obtain ys r where w: "walk (parent uf) x ys r"
    by blast
  from find_walk [OF w] l obtain p' where
    f: "UnionFind_find uf x = Some (Inr (r, uf\<lparr>parent := p'\<rparr>))"
    and lp: "length p' = n"
    and nth: "\<forall>i < n. p' ! i = (if i \<in> set ys then r else parent uf ! i)"
    by auto
  have re: "\<forall>i < n. p' ! i = parent uf ! i \<or> root_of (parent uf) i (p' ! i)"
    using nth walk_nodes_root [OF w] by auto
  have "uf_inv n (uf\<lparr>parent := p'\<rparr>)"
    by (rule repoint_inv [OF inv lp re])
  moreover have "\<forall>a < n. \<forall>s. root_of p' a s \<longleftrightarrow> root_of (parent uf) a s"
    using repoint_root_of [OF inv lp re] by blast
  ultimately show ?thesis using w f lp nth by blast
qed

subsection \<open>Linking one root under another\<close>

lemma link_forward:
  assumes c: "c < length p" "p ! c = c" and t: "t < length p" "p ! t = t" and ct: "c \<noteq> t"
  shows "walk p a zs r \<Longrightarrow> root_of (p[c := t]) a (if r = c then t else r)"
proof (induction rule: walk.induct)
  case (walk_root a)
  have tt: "root_of (p[c := t]) t t"
    using t ct by (simp add: root_of_root)
  show ?case
  proof (cases "a = c")
    case True
    with c ct tt show ?thesis by (simp add: root_of_step)
  next
    case False
    with walk_root show ?thesis by (simp add: root_of_root)
  qed
next
  case (walk_step a ys r)
  then have "a \<noteq> c" using c by auto
  with walk_step show ?case by (simp add: root_of_step)
qed

lemma link_root_of:
  assumes inv: "uf_inv n uf"
    and c: "c < n" "parent uf ! c = c" and t: "t < n" "parent uf ! t = t" and ct: "c \<noteq> t"
    and a: "a < n"
  shows "root_of ((parent uf)[c := t]) a r \<longleftrightarrow>
           (\<exists>r0. root_of (parent uf) a r0 \<and> r = (if r0 = c then t else r0))"
proof -
  have l: "length (parent uf) = n" using inv by (simp add: uf_inv_def)
  have fwd: "root_of ((parent uf)[c := t]) a (if s = c then t else s)"
    if "root_of (parent uf) a s" for s
    using that link_forward [of c "parent uf" t a _ s] c t ct l
    by (auto simp: root_of_def [of "parent uf"])
  from uf_inv_root_exists [OF inv a] obtain r0 where r0: "root_of (parent uf) a r0" ..
  show ?thesis
  proof
    assume "root_of ((parent uf)[c := t]) a r"
    with fwd [OF r0] have "r = (if r0 = c then t else r0)"
      by (blast intro: root_of_unique)
    with r0 show "\<exists>r0. root_of (parent uf) a r0 \<and> r = (if r0 = c then t else r0)" by blast
  next
    assume "\<exists>r0. root_of (parent uf) a r0 \<and> r = (if r0 = c then t else r0)"
    then show "root_of ((parent uf)[c := t]) a r" using fwd by blast
  qed
qed

lemma link_same_set:
  assumes inv: "uf_inv n uf"
    and c: "c < n" "parent uf ! c = c" and t: "t < n" "parent uf ! t = t" and ct: "c \<noteq> t"
    and a: "a < n" and b: "b < n"
  shows "same_set ((parent uf)[c := t]) a b \<longleftrightarrow>
           same_set (parent uf) a b
           \<or> (root_of (parent uf) a c \<and> root_of (parent uf) b t)
           \<or> (root_of (parent uf) a t \<and> root_of (parent uf) b c)"
proof -
  from uf_inv_root_exists [OF inv a] obtain ra where ra: "root_of (parent uf) a ra" ..
  from uf_inv_root_exists [OF inv b] obtain rb where rb: "root_of (parent uf) b rb" ..
  have ua: "root_of (parent uf) a s \<longleftrightarrow> s = ra" for s
    using ra by (blast intro: root_of_unique)
  have ub: "root_of (parent uf) b s \<longleftrightarrow> s = rb" for s
    using rb by (blast intro: root_of_unique)
  show ?thesis
    unfolding same_set_def
    by (simp add: link_root_of [OF inv c t ct a] link_root_of [OF inv c t ct b] ua ub)
      (use ct in auto)
qed

lemma link_inv:
  assumes inv: "uf_inv n uf"
    and c: "c < n" "parent uf ! c = c" and t: "t < n" "parent uf ! t = t" and ct: "c \<noteq> t"
    and lr: "length rk = n"
    and rk: "\<forall>i < n. i \<noteq> t \<longrightarrow> rk ! i = rank uf ! i" "rank uf ! t \<le> rk ! t"
    and lt: "rk ! c < rk ! t"
  shows "uf_inv n \<lparr>parent = (parent uf)[c := t], rank = rk\<rparr>"
proof -
  have l: "length (parent uf) = n" using inv by (simp add: uf_inv_def)
  have "(parent uf)[c := t] ! i < n
      \<and> ((parent uf)[c := t] ! i \<noteq> i \<longrightarrow> rk ! i < rk ! ((parent uf)[c := t] ! i))"
    if i: "i < n" for i
  proof (cases "i = c")
    case True
    with c t l lt show ?thesis by simp
  next
    case False
    then have p: "(parent uf)[c := t] ! i = parent uf ! i" by simp
    have pn: "parent uf ! i < n" using inv i by (simp add: uf_inv_def)
    have "rk ! i < rk ! (parent uf ! i)" if ne: "parent uf ! i \<noteq> i"
    proof -
      have it: "i \<noteq> t" using ne t by auto
      have "rank uf ! i < rank uf ! (parent uf ! i)"
        using inv i ne by (simp add: uf_inv_def)
      moreover have "rk ! i = rank uf ! i" using rk(1) i it by simp
      moreover have "rank uf ! (parent uf ! i) \<le> rk ! (parent uf ! i)"
        using rk pn by (cases "parent uf ! i = t") auto
      ultimately show ?thesis by simp
    qed
    with p pn show ?thesis by simp
  qed
  with l lr show ?thesis by (simp add: uf_inv_def)
qed

subsection \<open>union\<close>

lemma same_set_root: "root_of p b r \<Longrightarrow> same_set p a b \<longleftrightarrow> root_of p a r"
  unfolding same_set_def using root_of_unique by metis

lemma same_set_sym: "same_set p a b \<longleftrightarrow> same_set p b a"
  unfolding same_set_def by blast

lemma union_correct:
  assumes inv: "uf_inv n uf" and x: "x < n" and y: "y < n"
  shows "\<exists>b uf'. UnionFind_union uf x y = Some (Inr (b, uf')) \<and> uf_inv n uf'
           \<and> (\<forall>a < n. \<forall>c < n. same_set (parent uf') a c \<longleftrightarrow>
                  same_set (parent uf) a c
                  \<or> (same_set (parent uf) a x \<and> same_set (parent uf) y c)
                  \<or> (same_set (parent uf) a y \<and> same_set (parent uf) x c))
           \<and> (b \<longleftrightarrow> \<not> same_set (parent uf) x y)"
proof -
  from find_correct [OF inv x] obtain ys px p1 where
    w1: "walk (parent uf) x ys px"
    and f1: "UnionFind_find uf x = Some (Inr (px, uf\<lparr>parent := p1\<rparr>))"
    and inv1: "uf_inv n (uf\<lparr>parent := p1\<rparr>)"
    and roots1: "\<forall>a < n. \<forall>s. root_of p1 a s \<longleftrightarrow> root_of (parent uf) a s"
    by blast
  define uf1 where "uf1 = uf\<lparr>parent := p1\<rparr>"
  have p1: "parent uf1 = p1" by (simp add: uf1_def)
  from find_correct [OF inv1 y] obtain zs py p2 where
    w2: "walk p1 y zs py"
    and f2: "UnionFind_find uf1 y = Some (Inr (py, uf1\<lparr>parent := p2\<rparr>))"
    and inv2: "uf_inv n (uf1\<lparr>parent := p2\<rparr>)"
    and roots2: "\<forall>a < n. \<forall>s. root_of p2 a s \<longleftrightarrow> root_of p1 a s"
    unfolding uf1_def by auto
  define uf2 where "uf2 = uf1\<lparr>parent := p2\<rparr>"
  have q: "parent uf2 = p2" and rk2: "rank uf2 = rank uf" by (simp_all add: uf2_def uf1_def)
  have inv2': "uf_inv n uf2" using inv2 by (simp add: uf2_def)
  have len2: "length (parent uf2) = n" "length (rank uf2) = n"
    using inv2' by (simp_all add: uf_inv_def)
  have roots: "root_of (parent uf2) a s \<longleftrightarrow> root_of (parent uf) a s" if "a < n" for a s
    using roots1 roots2 that by (simp add: q)
  have same: "same_set (parent uf2) a c \<longleftrightarrow> same_set (parent uf) a c"
    if "a < n" "c < n" for a c
    using that by (simp add: same_set_def roots)
  have rx0: "root_of (parent uf) x px" using w1 by (auto simp: root_of_def)
  have ry0: "root_of (parent uf) y py" using w2 roots1 y by (auto simp: root_of_def)
  have rx: "root_of (parent uf2) x px" using rx0 x by (simp add: roots)
  have ry: "root_of (parent uf2) y py" using ry0 y by (simp add: roots)
  have px: "px < n" "parent uf2 ! px = px"
    using rx walk_root_is_root [of "parent uf2" x _ px] len2 by (auto simp: root_of_def)
  have py: "py < n" "parent uf2 ! py = py"
    using ry walk_root_is_root [of "parent uf2" y _ py] len2 by (auto simp: root_of_def)
  have xy: "same_set (parent uf) x y \<longleftrightarrow> px = py"
    using same_set_root [OF ry0, of x] rx0 by (blast intro: root_of_unique)
  have ax: "same_set (parent uf) a x \<longleftrightarrow> root_of (parent uf2) a px" if "a < n" for a
    using same_set_root [OF rx0, of a] that by (simp add: roots)
  have ay: "same_set (parent uf) a y \<longleftrightarrow> root_of (parent uf2) a py" if "a < n" for a
    using same_set_root [OF ry0, of a] that by (simp add: roots)
  have un: "UnionFind_union uf x y =
      (if px = py then Some (Inr (False, uf2))
       else if rank uf2 ! px < rank uf2 ! py
       then Some (Inr (True, uf2\<lparr>parent := (parent uf2)[px := py]\<rparr>))
       else if rank uf2 ! px > rank uf2 ! py
       then Some (Inr (True, uf2\<lparr>parent := (parent uf2)[py := px]\<rparr>))
       else Some (Inr (True, uf2\<lparr>parent := (parent uf2)[py := px],
                                  rank := (rank uf2)[px := rank uf2 ! px + 1]\<rparr>)))"
    using px(1) py(1) len2
    by (simp add: UnionFind_union_def f1 f2 uf1_def [symmetric] uf2_def [symmetric])
  show ?thesis
  proof (cases "px = py")
    case True
    have "\<forall>a < n. \<forall>c < n. same_set (parent uf2) a c \<longleftrightarrow>
                  same_set (parent uf) a c
                  \<or> (same_set (parent uf) a x \<and> same_set (parent uf) y c)
                  \<or> (same_set (parent uf) a y \<and> same_set (parent uf) x c)"
    proof (intro allI impI)
      fix a c assume a: "a < n" and c: "c < n"
      have "same_set (parent uf) a c" if "root_of (parent uf2) a px" "root_of (parent uf2) c px"
        using that a c by (auto simp: same_set_def roots)
      then show "same_set (parent uf2) a c \<longleftrightarrow>
                  same_set (parent uf) a c
                  \<or> (same_set (parent uf) a x \<and> same_set (parent uf) y c)
                  \<or> (same_set (parent uf) a y \<and> same_set (parent uf) x c)"
        using True a c
        by (auto simp: same ax ay same_set_sym [of _ y c] same_set_sym [of _ x c])
    qed
    with True un inv2' xy show ?thesis by auto
  next
    case False
    have link: "\<exists>uf'. UnionFind_union uf x y = Some (Inr (True, uf')) \<and> uf_inv n uf'
        \<and> (\<exists>c t. (c = px \<and> t = py \<or> c = py \<and> t = px) \<and> parent uf' = (parent uf2)[c := t])"
    proof -
      consider (lt) "rank uf2 ! px < rank uf2 ! py" | (gt) "rank uf2 ! py < rank uf2 ! px"
        | (eq) "rank uf2 ! px = rank uf2 ! py" by linarith
      then show ?thesis
      proof cases
        case lt
        have "uf_inv n \<lparr>parent = (parent uf2)[px := py], rank = rank uf2\<rparr>"
          using inv2' px py False len2 lt by (intro link_inv) auto
        then have "uf_inv n (uf2\<lparr>parent := (parent uf2)[px := py]\<rparr>)"
          by (simp add: uf_inv_def)
        then show ?thesis using un False lt by auto
      next
        case gt
        have "uf_inv n \<lparr>parent = (parent uf2)[py := px], rank = rank uf2\<rparr>"
          using inv2' px py False len2 gt by (intro link_inv) auto
        then have "uf_inv n (uf2\<lparr>parent := (parent uf2)[py := px]\<rparr>)"
          by (simp add: uf_inv_def)
        then show ?thesis using un False gt by auto
      next
        case eq
        have "uf_inv n \<lparr>parent = (parent uf2)[py := px],
                        rank = (rank uf2)[px := rank uf2 ! px + 1]\<rparr>"
          using inv2' px py False len2 eq by (intro link_inv) (auto simp: nth_list_update)
        then have "uf_inv n (uf2\<lparr>parent := (parent uf2)[py := px],
                                  rank := (rank uf2)[px := rank uf2 ! px + 1]\<rparr>)"
          by (simp add: uf_inv_def)
        then show ?thesis using un False eq by auto
      qed
    qed
    then obtain uf' c t where
      u: "UnionFind_union uf x y = Some (Inr (True, uf'))" and inv': "uf_inv n uf'"
      and ct: "c = px \<and> t = py \<or> c = py \<and> t = px"
      and p': "parent uf' = (parent uf2)[c := t]"
      by blast
    have c: "c < n" "parent uf2 ! c = c" and t: "t < n" "parent uf2 ! t = t" and ne: "c \<noteq> t"
      using ct px py False by auto
    have "\<forall>a < n. \<forall>d < n. same_set (parent uf') a d \<longleftrightarrow>
                  same_set (parent uf) a d
                  \<or> (same_set (parent uf) a x \<and> same_set (parent uf) y d)
                  \<or> (same_set (parent uf) a y \<and> same_set (parent uf) x d)"
    proof (intro allI impI)
      fix a d assume a: "a < n" and d: "d < n"
      have "same_set (parent uf') a d \<longleftrightarrow>
              same_set (parent uf2) a d
              \<or> (root_of (parent uf2) a c \<and> root_of (parent uf2) d t)
              \<or> (root_of (parent uf2) a t \<and> root_of (parent uf2) d c)"
        unfolding p' by (rule link_same_set [OF inv2' c t ne a d])
      then show "same_set (parent uf') a d \<longleftrightarrow>
                  same_set (parent uf) a d
                  \<or> (same_set (parent uf) a x \<and> same_set (parent uf) y d)
                  \<or> (same_set (parent uf) a y \<and> same_set (parent uf) x d)"
        using ct a d
        by (auto simp: same ax ay same_set_sym [of _ y d] same_set_sym [of _ x d])
    qed
    with u inv' xy False show ?thesis by auto
  qed
qed

subsection \<open>Connectivity by the pairs unioned so far\<close>

lemma connected_refl: "connected ps a a"
  by (simp add: connected_def)

lemma connected_sym: "connected ps a b \<Longrightarrow> connected ps b a"
proof -
  have "sym (set ps \<union> (set ps)\<inverse>)" by (auto simp: sym_def)
  then have "sym ((set ps \<union> (set ps)\<inverse>)\<^sup>*)" by (rule sym_rtrancl)
  then show "connected ps a b \<Longrightarrow> connected ps b a"
    unfolding connected_def by (rule symD)
qed

lemma connected_trans: "connected ps a b \<Longrightarrow> connected ps b c \<Longrightarrow> connected ps a c"
  unfolding connected_def by (rule rtrancl_trans)

lemma connected_mono: "set ps \<subseteq> set qs \<Longrightarrow> connected ps a b \<Longrightarrow> connected qs a b"
  unfolding connected_def
  by (rule rtrancl_mono [THEN subsetD, rotated]) auto

lemma connected_edge: "(x, y) \<in> set ps \<Longrightarrow> connected ps x y"
  unfolding connected_def by blast

lemma connected_add:
  "connected ((x, y) # ps) a b \<longleftrightarrow>
     connected ps a b \<or> (connected ps a x \<and> connected ps y b)
       \<or> (connected ps a y \<and> connected ps x b)"
  (is "?L \<longleftrightarrow> ?R a b")
proof
  assume ?L
  then have "(a, b) \<in> (set ((x, y) # ps) \<union> (set ((x, y) # ps))\<inverse>)\<^sup>*"
    by (simp add: connected_def)
  then show "?R a b"
  proof (induction rule: rtrancl_induct)
    case base
    show ?case by (simp add: connected_refl)
  next
    case (step b c)
    from step.hyps(2) consider (old) "connected ps b c" | (xy) "b = x" "c = y" | (yx) "b = y" "c = x"
      using connected_edge [of b c ps] connected_edge [of c b ps] connected_sym [of ps c b]
      by auto
    then show ?case
    proof cases
      case old
      with step.IH show ?thesis by (blast intro: connected_trans)
    next
      case xy
      with step.IH show ?thesis
        by (blast intro: connected_trans connected_sym connected_refl)
    next
      case yx
      with step.IH show ?thesis
        by (blast intro: connected_trans connected_sym connected_refl)
    qed
  qed
next
  let ?qs = "(x, y) # ps"
  have m: "connected ps u v \<Longrightarrow> connected ?qs u v" for u v
    by (rule connected_mono) auto
  have e: "connected ?qs x y" by (rule connected_edge) simp
  have e': "connected ?qs y x" by (rule connected_sym [OF e])
  assume "?R a b"
  then consider (old) "connected ps a b" | (xy) "connected ps a x" "connected ps y b"
    | (yx) "connected ps a y" "connected ps x b" by blast
  then show ?L
  proof cases
    case old
    then show ?thesis by (rule m)
  next
    case xy
    from connected_trans [OF m [OF xy(1)] e] m [OF xy(2)] show ?thesis
      by (rule connected_trans)
  next
    case yx
    from connected_trans [OF m [OF yx(1)] e'] m [OF yx(2)] show ?thesis
      by (rule connected_trans)
  qed
qed

lemma connected_set_cong: "set ps = set qs \<Longrightarrow> connected ps a b = connected qs a b"
  by (simp add: connected_def)

lemma connected_snoc:
  "connected (ps @ [(x, y)]) a b \<longleftrightarrow>
     connected ps a b \<or> (connected ps a x \<and> connected ps y b)
       \<or> (connected ps a y \<and> connected ps x b)"
  using connected_add [of x y ps a b] connected_set_cong [of "ps @ [(x, y)]" "(x, y) # ps" a b]
  by simp

subsection \<open>The initial structure and sequences of operations\<close>

lemma uf_inv_init: "uf_inv n (UnionFind_init n)"
  by (simp add: uf_inv_def UnionFind_init_def)

lemma root_of_init: "a < n \<Longrightarrow> root_of (parent (UnionFind_init n)) a r \<longleftrightarrow> r = a"
  by (simp add: UnionFind_init_def root_of_root)

lemma same_set_init:
  "a < n \<Longrightarrow> b < n \<Longrightarrow> same_set (parent (UnionFind_init n)) a b \<longleftrightarrow> connected [] a b"
  by (auto simp: same_set_def root_of_init connected_def)

lemma apply_op_represents:
  assumes r: "represents n uf ps" and inr: "op_in_range n op"
  shows "\<exists>uf'. apply_op uf op = Some (Inr uf') \<and> represents n uf' (ps @ pairs_of [op])"
proof (cases op)
  case (Find x)
  with inr have x: "x < n" by simp
  from r have inv: "uf_inv n uf" by (simp add: represents_def)
  from find_correct [OF inv x] obtain r0 p' where
    f: "UnionFind_find uf x = Some (Inr (r0, uf\<lparr>parent := p'\<rparr>))"
    and inv': "uf_inv n (uf\<lparr>parent := p'\<rparr>)"
    and roots: "\<forall>a < n. \<forall>s. root_of p' a s \<longleftrightarrow> root_of (parent uf) a s"
    by blast
  have "represents n (uf\<lparr>parent := p'\<rparr>) ps"
    using r inv' roots by (simp add: represents_def same_set_def)
  with f Find show ?thesis by simp
next
  case (Union x y)
  with inr have x: "x < n" and y: "y < n" by simp_all
  from r have inv: "uf_inv n uf"
    and rel: "\<forall>a < n. \<forall>b < n. same_set (parent uf) a b \<longleftrightarrow> connected ps a b"
    by (simp_all add: represents_def)
  from union_correct [OF inv x y] obtain b uf' where
    u: "UnionFind_union uf x y = Some (Inr (b, uf'))" and inv': "uf_inv n uf'"
    and same: "\<forall>a < n. \<forall>c < n. same_set (parent uf') a c \<longleftrightarrow>
                  same_set (parent uf) a c
                  \<or> (same_set (parent uf) a x \<and> same_set (parent uf) y c)
                  \<or> (same_set (parent uf) a y \<and> same_set (parent uf) x c)"
    by blast
  have "\<forall>a < n. \<forall>c < n. same_set (parent uf') a c \<longleftrightarrow> connected (ps @ [(x, y)]) a c"
    using same rel x y by (simp add: connected_snoc)
  with inv' have "represents n uf' (ps @ [(x, y)])" by (simp add: represents_def)
  with u Union show ?thesis by simp
qed

lemma run_represents:
  "represents n uf ps \<Longrightarrow> ops_in_range n ops \<Longrightarrow>
     \<exists>uf'. run uf ops = Some (Inr uf') \<and> represents n uf' (ps @ pairs_of ops)"
proof (induction ops arbitrary: uf ps)
  case Nil
  then show ?case by simp
next
  case (Cons op ops)
  from Cons.prems(2) have o: "op_in_range n op" and os: "ops_in_range n ops"
    by (simp_all add: ops_in_range_def)
  from apply_op_represents [OF Cons.prems(1) o] obtain uf1 where
    a: "apply_op uf op = Some (Inr uf1)" and r1: "represents n uf1 (ps @ pairs_of [op])"
    by blast
  from Cons.IH [OF r1 os] obtain uf' where
    "run uf1 ops = Some (Inr uf')" "represents n uf' ((ps @ pairs_of [op]) @ pairs_of ops)"
    by blast
  moreover have "pairs_of [op] @ pairs_of ops = pairs_of (op # ops)"
    by (cases op) simp_all
  ultimately show ?case using a by simp
qed

lemma run_init_represents:
  "ops_in_range n ops \<Longrightarrow>
     \<exists>uf. run (UnionFind_init n) ops = Some (Inr uf) \<and> represents n uf (pairs_of ops)"
  using run_represents [of n "UnionFind_init n" "[]" ops]
  by (simp add: represents_def uf_inv_init same_set_init)


section \<open>Properties of union-find\<close>

text \<open>
  C3.  Start from \<open>UnionFind(n)\<close> and make any finite sequence of calls on elements of
  \<open>{0, ..., n - 1}\<close> (unions, and finds between them if one likes).  Every call returns,
  and then for all elements \<open>a\<close> and \<open>b\<close> the calls \<open>find(a)\<close> and \<open>find(b)\<close> return, with
  \<open>find(a) == find(b)\<close> if and only if \<open>a\<close> and \<open>b\<close> are connected by the reflexive,
  symmetric and transitive closure of the pairs unioned so far.
\<close>

theorem UnionFind_same_root_iff_connected:
  assumes "ops_in_range n ops" and "a < n" and "b < n"
  shows "\<exists>uf ra uf1 rb uf2.
           run (UnionFind_init n) ops = Some (Inr uf)
         \<and> UnionFind_find uf a = Some (Inr (ra, uf1))
         \<and> UnionFind_find uf1 b = Some (Inr (rb, uf2))
         \<and> (ra = rb \<longleftrightarrow> connected (pairs_of ops) a b)"
proof -
  from run_init_represents [OF assms(1)] obtain uf where
    run: "run (UnionFind_init n) ops = Some (Inr uf)" and inv: "uf_inv n uf"
    and rel: "\<forall>a < n. \<forall>b < n. same_set (parent uf) a b \<longleftrightarrow> connected (pairs_of ops) a b"
    by (auto simp: represents_def)
  from find_correct [OF inv assms(2)] obtain ys ra p1 where
    w1: "walk (parent uf) a ys ra"
    and f1: "UnionFind_find uf a = Some (Inr (ra, uf\<lparr>parent := p1\<rparr>))"
    and inv1: "uf_inv n (uf\<lparr>parent := p1\<rparr>)"
    and roots1: "\<forall>a < n. \<forall>s. root_of p1 a s \<longleftrightarrow> root_of (parent uf) a s"
    by blast
  from find_correct [OF inv1 assms(3)] obtain zs rb p2 where
    w2: "walk p1 b zs rb"
    and f2: "UnionFind_find (uf\<lparr>parent := p1\<rparr>) b = Some (Inr (rb, uf\<lparr>parent := p2\<rparr>))"
    by auto
  have ra: "root_of (parent uf) a ra" using w1 by (auto simp: root_of_def)
  have rb: "root_of (parent uf) b rb" using w2 roots1 assms(3) by (auto simp: root_of_def)
  have "same_set (parent uf) a b \<longleftrightarrow> ra = rb"
    using same_set_root [OF rb, of a] ra by (metis root_of_unique)
  with rel assms(2,3) have "ra = rb \<longleftrightarrow> connected (pairs_of ops) a b" by simp
  with run f1 f2 show ?thesis by blast
qed

text \<open>
  The example of C3: elements \<open>{0, ..., 4}\<close>, \<open>union(0, 1)\<close>, \<open>union(1, 2)\<close>.  Then
  \<open>find(0) == find(2)\<close> (both return 0) and \<open>find(0) \<noteq> find(3)\<close> (0 and 3), and by the
  theorem 0 and 2 are connected by the two pairs while 0 and 3 are not.
\<close>

theorem UnionFind_same_root_iff_connected_witness:
  "ops_in_range 5 [Union 0 1, Union 1 2]
   \<and> run (UnionFind_init 5) [Union 0 1, Union 1 2]
       = Some (Inr \<lparr>parent = [0, 0, 0, 3, 4], rank = [1, 0, 0, 0, 0]\<rparr>)
   \<and> UnionFind_find \<lparr>parent = [0, 0, 0, 3, 4], rank = [1, 0, 0, 0, 0]\<rparr> 0
       = Some (Inr (0, \<lparr>parent = [0, 0, 0, 3, 4], rank = [1, 0, 0, 0, 0]\<rparr>))
   \<and> UnionFind_find \<lparr>parent = [0, 0, 0, 3, 4], rank = [1, 0, 0, 0, 0]\<rparr> 2
       = Some (Inr (0, \<lparr>parent = [0, 0, 0, 3, 4], rank = [1, 0, 0, 0, 0]\<rparr>))
   \<and> UnionFind_find \<lparr>parent = [0, 0, 0, 3, 4], rank = [1, 0, 0, 0, 0]\<rparr> 3
       = Some (Inr (3, \<lparr>parent = [0, 0, 0, 3, 4], rank = [1, 0, 0, 0, 0]\<rparr>))
   \<and> connected [(0, 1), (1, 2)] 0 2
   \<and> \<not> connected [(0, 1), (1, 2)] 0 3"
proof -
  let ?ops = "[Union 0 1, Union 1 2]"
  let ?uf = "\<lparr>parent = [0, 0, 0, 3, 4], rank = [1, 0, 0, 0, 0]\<rparr>"
  have h: "ops_in_range 5 ?ops" by (simp add: ops_in_range_def)
  have r: "run (UnionFind_init 5) ?ops = Some (Inr ?uf)" by code_simp
  have f0: "UnionFind_find ?uf 0 = Some (Inr (0, ?uf))" by code_simp
  have f2: "UnionFind_find ?uf 2 = Some (Inr (0, ?uf))" by code_simp
  have f3: "UnionFind_find ?uf 3 = Some (Inr (3, ?uf))" by code_simp
  have c02: "connected (pairs_of ?ops) 0 2"
    using UnionFind_same_root_iff_connected [OF h, of 0 2] r f0 f2 by auto
  have c03: "\<not> connected (pairs_of ?ops) 0 3"
    using UnionFind_same_root_iff_connected [OF h, of 0 3] r f0 f3 by auto
  from h r f0 f2 f3 c02 c03 show ?thesis by simp
qed

text \<open>
  C8.  In every state reached from \<open>UnionFind(n)\<close> by \<open>find\<close> and \<open>union\<close> calls on elements
  of \<open>{0, ..., n - 1}\<close>, following parent links from an element \<open>x\<close> terminates: it passes
  through finitely many nodes \<open>ys\<close> and ends at a root \<open>r\<close>, an element whose parent is
  itself.  \<open>find(x)\<close> returns this \<open>r\<close>.  Afterwards the parent of every node visited on
  the way (the nodes \<open>ys\<close>) is \<open>r\<close>, every other parent and all ranks are unchanged, and
  every element has the same root as before.
\<close>

theorem UnionFind_find_path_compression:
  assumes "ops_in_range n ops" and "x < n"
  shows "\<exists>uf ys r uf'.
           run (UnionFind_init n) ops = Some (Inr uf)
         \<and> walk (parent uf) x ys r \<and> r < n \<and> parent uf ! r = r
         \<and> UnionFind_find uf x = Some (Inr (r, uf'))
         \<and> length (parent uf') = n
         \<and> (\<forall>i < n. parent uf' ! i = (if i \<in> set ys then r else parent uf ! i))
         \<and> rank uf' = rank uf
         \<and> (\<forall>a < n. \<forall>s. root_of (parent uf') a s \<longleftrightarrow> root_of (parent uf) a s)"
proof -
  from run_init_represents [OF assms(1)] obtain uf where
    run: "run (UnionFind_init n) ops = Some (Inr uf)" and inv: "uf_inv n uf"
    by (auto simp: represents_def)
  have l: "length (parent uf) = n" using inv by (simp add: uf_inv_def)
  from find_correct [OF inv assms(2)] obtain ys r p' where
    w: "walk (parent uf) x ys r"
    and f: "UnionFind_find uf x = Some (Inr (r, uf\<lparr>parent := p'\<rparr>))"
    and lp: "length p' = n"
    and nth: "\<forall>i < n. p' ! i = (if i \<in> set ys then r else parent uf ! i)"
    and roots: "\<forall>a < n. \<forall>s. root_of p' a s \<longleftrightarrow> root_of (parent uf) a s"
    by blast
  from walk_root_is_root [OF w] l have "r < n" "parent uf ! r = r" by simp_all
  with run w f lp nth roots show ?thesis
    by (intro exI [of _ uf] exI [of _ ys] exI [of _ r] exI [of _ "uf\<lparr>parent := p'\<rparr>"]) simp
qed

theorem UnionFind_find_path_compression_witness:
  "ops_in_range 4 [Union 0 1, Union 2 3, Union 0 2]
   \<and> run (UnionFind_init 4) [Union 0 1, Union 2 3, Union 0 2]
       = Some (Inr \<lparr>parent = [0, 0, 0, 2], rank = [2, 0, 1, 0]\<rparr>)
   \<and> walk [0, 0, 0, 2] 3 [3, 2] 0
   \<and> UnionFind_find \<lparr>parent = [0, 0, 0, 2], rank = [2, 0, 1, 0]\<rparr> 3
       = Some (Inr (0, \<lparr>parent = [0, 0, 0, 0], rank = [2, 0, 1, 0]\<rparr>))"
proof -
  let ?ops = "[Union 0 1, Union 2 3, Union 0 2]"
  let ?uf = "\<lparr>parent = [0, 0, 0, 2], rank = [2, 0, 1, 0]\<rparr>"
  have h: "ops_in_range 4 ?ops" by (simp add: ops_in_range_def)
  have r: "run (UnionFind_init 4) ?ops = Some (Inr ?uf)" by code_simp
  have f: "UnionFind_find ?uf 3 = Some (Inr (0, \<lparr>parent = [0, 0, 0, 0], rank = [2, 0, 1, 0]\<rparr>))"
    by code_simp
  from UnionFind_find_path_compression [OF h, of 3] r f obtain ys where
    w: "walk [0, 0, 0, 2] 3 ys 0" by auto
  have "walk [0, 0, 0, 2] 3 [3, 2] 0"
    by (rule walk.intros | simp)+
  with h r f w show ?thesis by simp
qed

text \<open>
  What \<open>union\<close> reports.  In every state reached from \<open>UnionFind(n)\<close> by calls on elements of
  \<open>{0, ..., n - 1}\<close>, \<open>union(x, y)\<close> returns; it returns \<open>False\<close> exactly when \<open>x\<close> and \<open>y\<close>
  are already connected by the pairs unioned so far, and \<open>True\<close> otherwise.
\<close>

theorem UnionFind_union_reports_already_joined:
  assumes "ops_in_range n ops" and "x < n" and "y < n"
  shows "\<exists>uf b uf'.
           run (UnionFind_init n) ops = Some (Inr uf)
         \<and> UnionFind_union uf x y = Some (Inr (b, uf'))
         \<and> (b \<longleftrightarrow> \<not> connected (pairs_of ops) x y)"
proof -
  from run_init_represents [OF assms(1)] obtain uf where
    run: "run (UnionFind_init n) ops = Some (Inr uf)" and inv: "uf_inv n uf"
    and rel: "\<forall>a < n. \<forall>b < n. same_set (parent uf) a b \<longleftrightarrow> connected (pairs_of ops) a b"
    by (auto simp: represents_def)
  from union_correct [OF inv assms(2,3)] obtain b uf' where
    "UnionFind_union uf x y = Some (Inr (b, uf'))" "b \<longleftrightarrow> \<not> same_set (parent uf) x y"
    by blast
  with run rel assms(2,3) show ?thesis by auto
qed

theorem UnionFind_union_reports_already_joined_witness:
  "ops_in_range 5 [Union 0 1, Union 1 2]
   \<and> map_option (map_sum id fst)
         (UnionFind_union \<lparr>parent = [0, 0, 0, 3, 4], rank = [1, 0, 0, 0, 0]\<rparr> 0 2)
       = Some (Inr False)
   \<and> connected (pairs_of [Union 0 1, Union 1 2]) 0 2"
proof -
  let ?ops = "[Union 0 1, Union 1 2]"
  let ?uf = "\<lparr>parent = [0, 0, 0, 3, 4], rank = [1, 0, 0, 0, 0]\<rparr>"
  have h: "ops_in_range 5 ?ops" by (simp add: ops_in_range_def)
  have r: "run (UnionFind_init 5) ?ops = Some (Inr ?uf)" by code_simp
  have u: "map_option (map_sum id fst) (UnionFind_union ?uf 0 2) = Some (Inr False)"
    by code_simp
  have c: "connected (pairs_of ?ops) 0 2"
    using UnionFind_union_reports_already_joined [OF h, of 0 2] r u by auto
  from h u c show ?thesis by simp
qed

end
